theory Spec2Isabelle
  imports Complex_Main "HOL-Library.Char_ord" "HOL-Library.List_Lexorder"
begin

section \<open>Errors\<close>

text \<open>
  Every exception the modelled Python code can raise is a value of this type; a function
  that may raise returns \<open>error + 'a\<close> with \<open>Inl\<close> for the exception.
  \<open>CollaboratorFailure\<close> stands for any exception coming out of an external
  collaborator (the language model, the technology detector, the JSON codec).
\<close>

datatype error =
    ValueError
  | ZeroDivisionError
  | IndexError
  | OverflowError
  | CollaboratorFailure

section \<open>Calendar dates (Python's \<open>datetime.date\<close>)\<close>

text \<open>
  A \<open>date\<close> holds year, month and day, as Python's \<open>datetime.date\<close> does. The time of
  day is already discarded where the program builds its dates
  (\<open>replace(hour=0, minute=0, second=0, microsecond=0)\<close> and \<open>.date()\<close>), and the ISO
  strings exchanged between the stages are read back with \<open>fromisoformat\<close>, so the
  stages are modelled on the dates themselves.
\<close>

record date =
  year :: int
  month :: int
  day :: int

definition date_less :: "date \<Rightarrow> date \<Rightarrow> bool" where
  "date_less a b =
     (year a < year b \<or> (year a = year b \<and>
       (month a < month b \<or> (month a = month b \<and> day a < day b))))"

definition is_leap :: "int \<Rightarrow> bool" where
  "is_leap y = (y mod 4 = 0 \<and> (y mod 100 \<noteq> 0 \<or> y mod 400 = 0))"

definition days_in_month :: "int \<Rightarrow> int \<Rightarrow> int" where
  "days_in_month y m =
     (if m = 2 then (if is_leap y then 29 else 28)
      else if m = 4 \<or> m = 6 \<or> m = 9 \<or> m = 11 then 30
      else 31)"

text \<open>The dates a \<open>datetime.date\<close> object can hold: years 1 to 9999.\<close>

definition valid_date :: "date \<Rightarrow> bool" where
  "valid_date d =
     (1 \<le> year d \<and> year d \<le> 9999 \<and> 1 \<le> month d \<and> month d \<le> 12 \<and>
      1 \<le> day d \<and> day d \<le> days_in_month (year d) (month d))"

text \<open>
  \<open>toordinal\<close>: the proleptic Gregorian ordinal, 1 for January 1 of year 1, computed as
  the library does from the days before the year and the days before the month.
\<close>

definition days_before_year :: "int \<Rightarrow> int" where
  "days_before_year y = (let p = y - 1 in p * 365 + p div 4 - p div 100 + p div 400)"

definition days_before_month :: "int \<Rightarrow> int \<Rightarrow> int" where
  "days_before_month y m =
     [0, 31, 59, 90, 120, 151, 181, 212, 243, 273, 304, 334] ! nat (m - 1)
       + (if m > 2 \<and> is_leap y then 1 else 0)"

definition toordinal :: "date \<Rightarrow> int" where
  "toordinal d = days_before_year (year d) + days_before_month (year d) (month d) + day d"

definition max_ordinal :: int where
  "max_ordinal = 3652059"

text \<open>\<open>weekday\<close>: 0 is Monday, 6 is Sunday.\<close>

definition weekday :: "date \<Rightarrow> int" where
  "weekday d = (toordinal d + 6) mod 7"

text \<open>The day after and the day before a date in the calendar.\<close>

definition next_day :: "date \<Rightarrow> date" where
  "next_day d =
     (if day d < days_in_month (year d) (month d) then d\<lparr>day := day d + 1\<rparr>
      else if month d < 12 then d\<lparr>month := month d + 1, day := 1\<rparr>
      else d\<lparr>year := year d + 1, month := 1, day := 1\<rparr>)"

definition prev_day :: "date \<Rightarrow> date" where
  "prev_day d =
     (if day d > 1 then d\<lparr>day := day d - 1\<rparr>
      else if month d > 1
        then d\<lparr>month := month d - 1, day := days_in_month (year d) (month d - 1)\<rparr>
      else d\<lparr>year := year d - 1, month := 12, day := 31\<rparr>)"

text \<open>
  \<open>date_add d k\<close> is \<open>d + timedelta(days=k)\<close> (and \<open>d - timedelta(days=j)\<close> for
  \<open>k = -j\<close>): the date \<open>k\<close> days away in the calendar, and \<open>OverflowError\<close> when its
  ordinal leaves the range of the type. The library computes it as
  \<open>fromordinal(toordinal() + k)\<close>; the lemma \<open>toordinal_date_add\<close> below shows that the
  date reached here has that ordinal.
\<close>

definition date_add :: "date \<Rightarrow> int \<Rightarrow> error + date" where
  "date_add d k =
     (let ordinal = toordinal d + k in
      if 0 < ordinal \<and> ordinal \<le> max_ordinal
      then Inr (if k \<ge> 0 then (next_day ^^ nat k) d else (prev_day ^^ nat (- k)) d)
      else Inl OverflowError)"

text \<open>\<open>d.replace(day=k)\<close>, which raises \<open>ValueError\<close> when the month has no day \<open>k\<close>.\<close>

definition replace_day :: "date \<Rightarrow> int \<Rightarrow> error + date" where
  "replace_day d k =
     (if 1 \<le> k \<and> k \<le> days_in_month (year d) (month d) then Inr (d\<lparr>day := k\<rparr>)
      else Inl ValueError)"

text \<open>
  Notions used to state and prove the properties of the calendar: a date with a month
  and a day that exist (whatever its year), the last day of a date's month, and the
  first day of the month after it.
\<close>

definition calendar_date :: "date \<Rightarrow> bool" where
  "calendar_date d =
     (1 \<le> month d \<and> month d \<le> 12 \<and> 1 \<le> day d \<and> day d \<le> days_in_month (year d) (month d))"



section \<open>Commit extraction (\<open>git_parser/commit_extractor.py\<close>)\<close>

subsection \<open>Strings\<close>

text \<open>
  Messages are modelled as ASCII strings: \<open>lower\<close> maps \<open>A\<close>..\<open>Z\<close> to \<open>a\<close>..\<open>z\<close>,
  \<open>strip\<close> removes leading and trailing white space, and \<open>is_substring k s\<close> is
  Python's \<open>k in s\<close>.
\<close>

definition lower_char :: "char \<Rightarrow> char" where
  "lower_char c =
     (let n = (of_char c :: nat) in if 65 \<le> n \<and> n \<le> 90 then char_of (n + 32) else c)"

definition lower :: "string \<Rightarrow> string" where
  "lower s = map lower_char s"

definition is_space :: "char \<Rightarrow> bool" where
  "is_space c =
     (let n = (of_char c :: nat) in (9 \<le> n \<and> n \<le> 13) \<or> (28 \<le> n \<and> n \<le> 32))"

definition strip :: "string \<Rightarrow> string" where
  "strip s = rev (dropWhile is_space (rev (dropWhile is_space s)))"

fun starts_with :: "string \<Rightarrow> string \<Rightarrow> bool" where
  "starts_with [] s = True"
| "starts_with (k # ks) [] = False"
| "starts_with (k # ks) (c # cs) = (k = c \<and> starts_with ks cs)"

fun is_substring :: "string \<Rightarrow> string \<Rightarrow> bool" where
  "is_substring k [] = (k = [])"
| "is_substring k (c # cs) = (starts_with k (c # cs) \<or> is_substring k cs)"

subsection \<open>The relevance filter\<close>

text \<open>
  \<open>_is_relevant_commit\<close>: with a non-empty keyword list, the message is lowercased and
  each keyword, as it was given, is looked for in it; then the length test.
  \<open>None\<close> and the empty list are both falsy in \<open>if irrelevant_keywords:\<close>.
\<close>

definition is_relevant_commit :: "string \<Rightarrow> string list option \<Rightarrow> bool" where
  "is_relevant_commit commit_message irrelevant_keywords =
     (let kws = (case irrelevant_keywords of None \<Rightarrow> [] | Some l \<Rightarrow> l) in
      if kws \<noteq> [] \<and> list_ex (\<lambda>keyword. is_substring keyword (lower commit_message)) kws
      then False
      else if length (strip commit_message) < 10 then False
      else True)"

subsection \<open>Repositories and commits\<close>

text \<open>
  What the extractor reads from GitPython: a commit object with its number of parents,
  its commit day (the local date of \<open>committed_date\<close>), author, message and touched files;
  a repository with its \<open>bare\<close> flag and its branches, each with the commits
  \<open>iter_commits(branch, reverse=True)\<close> walks, oldest first.
\<close>

record git_commit =
  hexsha :: string
  gc_author_name :: string
  gc_author_email :: string
  committed_day :: date
  gc_message :: string
  parents :: nat
  stats_files :: "string list"

record repo =
  bare :: bool
  branches :: "(string \<times> git_commit list) list"

text \<open>The dictionary built for each surviving commit.\<close>

record commit =
  hash :: string
  author :: string
  email :: string
  cdate :: date
  message :: string
  files :: "string list"

definition commit_data :: "git_commit \<Rightarrow> commit" where
  "commit_data c =
     \<lparr> hash = hexsha c, author = gc_author_name c, email = gc_author_email c,
       cdate = committed_day c, message = strip (gc_message c), files = stats_files c \<rparr>"

text \<open>The arguments of \<open>extract_commits_by_author\<close> other than the repository.\<close>

record extract_args =
  author_email :: "string list"
  start_date :: "date option"
  end_date :: "date option"
  page_size :: int
  repo_branches :: "string list option"
  ignore_commit_keywords :: "string list option"

text \<open>
  \<open>survives a c\<close> holds when none of the \<open>continue\<close> statements of the inner loop
  fires for \<open>c\<close>: merge commits, the date range, the author filter, the relevance filter.
\<close>

definition survives :: "extract_args \<Rightarrow> git_commit \<Rightarrow> bool" where
  "survives a c =
     (if parents c > 1 then False
      else if (case start_date a of None \<Rightarrow> False | Some s \<Rightarrow> date_less (committed_day c) s)
        then False
      else if (case end_date a of None \<Rightarrow> False | Some e \<Rightarrow> date_less e (committed_day c))
        then False
      else if gc_author_email c \<notin> set (author_email a) then False
      else if \<not> is_relevant_commit (strip (gc_message c)) (ignore_commit_keywords a) then False
      else True)"

subsection \<open>The generator\<close>

text \<open>
  The generator is modelled by the list of the batches it yields. \<open>scan_commits\<close> is the
  inner loop over one branch: it returns the batches yielded during that branch and the
  batch carried on to the next branch. \<open>scan_branches\<close> is the outer loop and the final
  \<open>if batch: yield batch\<close>.
\<close>

fun scan_commits ::
  "extract_args \<Rightarrow> git_commit list \<Rightarrow> commit list \<Rightarrow> commit list list \<times> commit list" where
  "scan_commits a [] batch = ([], batch)"
| "scan_commits a (c # cs) batch =
     (if \<not> survives a c then scan_commits a cs batch
      else let batch' = batch @ [commit_data c] in
        if int (length batch') \<ge> page_size a
        then (case scan_commits a cs [] of (ys, b) \<Rightarrow> (batch' # ys, b))
        else scan_commits a cs batch')"

fun scan_branches ::
  "repo \<Rightarrow> extract_args \<Rightarrow> string list \<Rightarrow> commit list \<Rightarrow> commit list list" where
  "scan_branches r a [] batch = (if batch \<noteq> [] then [batch] else [])"
| "scan_branches r a (branch # bs) batch =
     (case map_of (branches r) branch of
        None \<Rightarrow> scan_branches r a bs batch
      | Some cs \<Rightarrow>
          (case scan_commits a cs batch of (ys, batch') \<Rightarrow> ys @ scan_branches r a bs batch'))"

text \<open>
  \<open>extract_commits_by_author\<close>. The argument \<open>opened\<close> is the outcome of
  \<open>_get_or_clone_repo\<close> and \<open>Repo(repo_path)\<close>: \<open>None\<close> when the path is neither a URL
  nor a directory, which raises \<open>ValueError\<close>.
\<close>

definition branches_to_iterate :: "repo \<Rightarrow> extract_args \<Rightarrow> string list" where
  "branches_to_iterate r a =
     (case repo_branches a of
        None \<Rightarrow> map fst (branches r)
      | Some l \<Rightarrow> if l = [] then map fst (branches r) else l)"

definition extract_commits_by_author ::
  "repo option \<Rightarrow> extract_args \<Rightarrow> error + commit list list" where
  "extract_commits_by_author opened a =
     (case opened of
        None \<Rightarrow> Inl ValueError
      | Some r \<Rightarrow>
          if bare r \<or> branches r = [] then Inl ValueError
          else if branches_to_iterate r a = [] then Inl ValueError
          else Inr (scan_branches r a (branches_to_iterate r a) []))"

text \<open>
  The commits that survive the filters, in traversal order: branch after branch, a
  branch that the repository does not have being skipped.
\<close>

definition surviving_of :: "repo \<Rightarrow> extract_args \<Rightarrow> string list \<Rightarrow> commit list" where
  "surviving_of r a bs =
     concat (map (\<lambda>branch. case map_of (branches r) branch of
                              None \<Rightarrow> []
                            | Some cs \<Rightarrow> map commit_data (filter (survives a) cs)) bs)"

definition surviving :: "repo \<Rightarrow> extract_args \<Rightarrow> commit list" where
  "surviving r a = surviving_of r a (branches_to_iterate r a)"

subsection \<open>Example repositories\<close>

definition example_commit :: "string \<Rightarrow> git_commit" where
  "example_commit h =
     \<lparr> hexsha = h, gc_author_name = ''Ada'', gc_author_email = ''ada@example.org'',
       committed_day = \<lparr> year = 2024, month = 3, day = 4 \<rparr>,
       gc_message = ''Implement caching layer for resolver'', parents = 1,
       stats_files = [''src/cache.py''] \<rparr>"

definition example_args :: "int \<Rightarrow> extract_args" where
  "example_args n =
     \<lparr> author_email = [''ada@example.org''], start_date = None, end_date = None,
       page_size = n, repo_branches = None, ignore_commit_keywords = Some [''typo''] \<rparr>"

definition two_branch_repo :: repo where
  "two_branch_repo =
     \<lparr> bare = False,
       branches = [(''main'', [example_commit ''a1'']), (''dev'', [example_commit ''b2''])] \<rparr>"

definition big_repo :: repo where
  "big_repo =
     \<lparr> bare = False,
       branches = [(''main'', replicate 150 (example_commit ''a1'')),
                   (''dev'', replicate 100 (example_commit ''b2''))] \<rparr>"

section \<open>Aggregation (\<open>summarizer/*.py\<close>)\<close>

subsection \<open>Grouping with \<open>defaultdict(list)\<close>\<close>

text \<open>
  A dictionary is an association list in insertion order, which is the order Python
  iterates it in. \<open>group_append k v s\<close> is \<open>s[k].append(v)\<close> on a
  \<open>defaultdict(list)\<close>: a new key goes to the end.
\<close>

fun group_append :: "'k \<Rightarrow> 'v \<Rightarrow> ('k \<times> 'v list) list \<Rightarrow> ('k \<times> 'v list) list" where
  "group_append k v [] = [(k, [v])]"
| "group_append k v ((k', g) # rest) =
     (if k = k' then (k', g @ [v]) # rest else (k', g) # group_append k v rest)"

text \<open>
  The grouping loop of the weekly and the monthly summarizer: the key of each item is
  computed (which may raise) and the item is appended to the list of that key.
\<close>

fun group_by_key ::
  "('v \<Rightarrow> error + 'k) \<Rightarrow> 'v list \<Rightarrow> ('k \<times> 'v list) list \<Rightarrow> error + ('k \<times> 'v list) list" where
  "group_by_key key [] summaries = Inr summaries"
| "group_by_key key (item # rest) summaries =
     (case key item of
        Inl e \<Rightarrow> Inl e
      | Inr k \<Rightarrow> group_by_key key rest (group_append k item summaries))"

text \<open>
  A loop that appends one computed record per element and is left by the first
  exception.
\<close>

fun map_err :: "('a \<Rightarrow> error + 'b) \<Rightarrow> 'a list \<Rightarrow> error + 'b list" where
  "map_err f [] = Inr []"
| "map_err f (x # xs) =
     (case f x of
        Inl e \<Rightarrow> Inl e
      | Inr y \<Rightarrow> (case map_err f xs of Inl e \<Rightarrow> Inl e | Inr ys \<Rightarrow> Inr (y # ys)))"

subsection \<open>Technology weights\<close>

text \<open>
  A weight map is a dictionary from technology name to weight. Python's floats are
  idealised as exact rationals: the model says nothing about rounding error of the
  floating-point operations.
\<close>

type_synonym weights = "(string \<times> rat) list"

text \<open>\<open>tech_weights[tech] += weight\<close> on a \<open>defaultdict(float)\<close>.\<close>

fun add_weight :: "string \<Rightarrow> rat \<Rightarrow> weights \<Rightarrow> weights" where
  "add_weight tech weight [] = [(tech, 0 + weight)]"
| "add_weight tech weight ((t, v) # rest) =
     (if tech = t then (t, v + weight) # rest else (t, v) # add_weight tech weight rest)"

definition collect_weights :: "weights list \<Rightarrow> weights" where
  "collect_weights entries =
     foldl (\<lambda>acc entry. foldl (\<lambda>acc' (tech, weight). add_weight tech weight acc') acc entry)
       [] entries"

definition sum_values :: "weights \<Rightarrow> rat" where
  "sum_values m = sum_list (map snd m)"

definition percentages_of :: "weights \<Rightarrow> rat \<Rightarrow> weights" where
  "percentages_of totals total_weight =
     map (\<lambda>(tech, weight). (tech, (weight / total_weight) * 100)) totals"

text \<open>\<open>round(p, 2)\<close>: to the nearest hundredth, a tie going to the even one.\<close>

definition round2 :: "rat \<Rightarrow> rat" where
  "round2 p =
     (let n = \<lfloor>p * 100\<rfloor>; r = p * 100 - of_int n in
      of_int (if r < 1 / 2 then n
              else if r > 1 / 2 then n + 1
              else if even n then n else n + 1) / 100)"

definition rounded_of :: "weights \<Rightarrow> weights" where
  "rounded_of percentages = map (\<lambda>(tech, p). (tech, round2 p)) percentages"

text \<open>\<open>percentages[tech] - math.floor(percentages[tech] * 100) / 100\<close>.\<close>

definition decimal_diff :: "rat \<Rightarrow> rat" where
  "decimal_diff p = p - of_int \<lfloor>p * 100\<rfloor> / 100"

text \<open>
  \<open>sorted(decimal_diffs, key=lambda x: decimal_diffs[x], reverse=True)\<close>: Python's sort
  is stable, also with \<open>reverse=True\<close>, so this is the stable sort of the keys by
  descending remainder.
\<close>

definition sorted_techs :: "weights \<Rightarrow> string list" where
  "sorted_techs percentages =
     map fst (sort_key (\<lambda>(tech, p). - decimal_diff p) percentages)"

text \<open>\<open>rounded_percentages[tech] += diff\<close>.\<close>

definition add_to :: "string \<Rightarrow> rat \<Rightarrow> weights \<Rightarrow> weights" where
  "add_to tech diff m = map (\<lambda>(t, v). if t = tech then (t, v + diff) else (t, v)) m"

text \<open>
  The part the weekly and the monthly \<open>_consolidate_technologies\<close> share, from the
  rounding on: the adjustment of one entry when the rounded values do not sum to 100, and
  \<open>dict(sorted(rounded_percentages.items()))\<close>. \<open>sorted_techs[0]\<close> raises
  \<open>IndexError\<close> on an empty list.
\<close>

definition adjust_and_sort :: "weights \<Rightarrow> error + weights" where
  "adjust_and_sort percentages =
     (let rounded_percentages = rounded_of percentages;
          current_sum = sum_values rounded_percentages in
      if current_sum \<noteq> 100 then
        (case sorted_techs percentages of
           [] \<Rightarrow> Inl IndexError
         | tech # _ \<Rightarrow>
             Inr (sort_key fst (add_to tech (100 - current_sum) rounded_percentages)))
      else Inr (sort_key fst rounded_percentages))"

text \<open>
  \<open>WeeklySummarizer._consolidate_technologies\<close>: no test of the total; the division
  in the comprehension raises \<open>ZeroDivisionError\<close> as soon as there is an entry.
\<close>

definition weekly_consolidate_technologies :: "weights list \<Rightarrow> error + weights" where
  "weekly_consolidate_technologies grp =
     (let tech_weights = collect_weights grp;
          total_weight = sum_values tech_weights in
      if tech_weights \<noteq> [] \<and> total_weight = 0 then Inl ZeroDivisionError
      else adjust_and_sort (percentages_of tech_weights total_weight))"

text \<open>\<open>MonthlySummarizer._consolidate_technologies\<close>: a zero total returns \<open>{}\<close>.\<close>

definition monthly_consolidate_technologies :: "weights list \<Rightarrow> error + weights" where
  "monthly_consolidate_technologies grp =
     (let technology_totals = collect_weights grp;
          total_monthly_weight = sum_values technology_totals in
      if total_monthly_weight = 0 then Inr []
      else adjust_and_sort (percentages_of technology_totals total_monthly_weight))"

subsection \<open>Buckets\<close>

record daily_summary =
  d_date :: date
  d_commit_count :: int
  d_technologies :: weights
  d_descriptions :: string

record weekly_summary =
  w_start_date :: date
  w_end_date :: date
  w_commit_count :: int
  w_technologies :: weights
  w_descriptions :: string


subsection \<open>\<open>DailySummarizer.summarize\<close>\<close>




subsection \<open>\<open>WeeklySummarizer.summarize\<close>\<close>

text \<open>\<open>commit_date - timedelta(days=commit_date.weekday())\<close>.\<close>

definition week_start_of :: "date \<Rightarrow> error + date" where
  "week_start_of commit_date = date_add commit_date (- weekday commit_date)"

definition weekly_groups :: "daily_summary list \<Rightarrow> error + (date \<times> daily_summary list) list" where
  "weekly_groups data = group_by_key (\<lambda>commit. week_start_of (d_date commit)) data []"

definition weekly_bucket ::
  "(daily_summary list \<Rightarrow> error + string) \<Rightarrow> date \<times> daily_summary list \<Rightarrow>
   error + weekly_summary" where
  "weekly_bucket unify entry =
     (case entry of (week_start, grp) \<Rightarrow>
        (case weekly_consolidate_technologies (map d_technologies grp) of
           Inl e \<Rightarrow> Inl e
         | Inr technologies \<Rightarrow>
             (case date_add week_start 6 of
                Inl e \<Rightarrow> Inl e
              | Inr week_end \<Rightarrow>
                  (case unify grp of
                     Inl e \<Rightarrow> Inl e
                   | Inr weekly_summary \<Rightarrow>
                       Inr \<lparr> w_start_date = week_start, w_end_date = week_end,
                             w_commit_count = sum_list (map d_commit_count grp),
                             w_technologies = technologies,
                             w_descriptions = weekly_summary \<rparr>))))"

definition weekly_summarize ::
  "(daily_summary list \<Rightarrow> error + string) \<Rightarrow> daily_summary list \<Rightarrow>
   error + weekly_summary list" where
  "weekly_summarize unify data =
     (case weekly_groups data of
        Inl e \<Rightarrow> Inl e
      | Inr summaries \<Rightarrow> map_err (weekly_bucket unify) summaries)"

subsection \<open>\<open>MonthlySummarizer.summarize\<close>\<close>

text \<open>
  \<open>_last_day_of_month\<close>:
  \<open>(d.replace(day=28) + timedelta(days=4)).replace(day=1) - timedelta(days=1)\<close>.
\<close>

definition last_day_of_month :: "date \<Rightarrow> error + date" where
  "last_day_of_month d =
     (case replace_day d 28 of
        Inl e \<Rightarrow> Inl e
      | Inr d28 \<Rightarrow>
          (case date_add d28 4 of
             Inl e \<Rightarrow> Inl e
           | Inr later \<Rightarrow>
               (case replace_day later 1 of
                  Inl e \<Rightarrow> Inl e
                | Inr next_month \<Rightarrow> date_add next_month (- 1))))"





section \<open>The stage cache (\<open>cache/file_cache.py\<close>)\<close>

text \<open>
  The file system is the set of directories and the text of each file, by path (paths
  are taken relative to the working directory). A stage function runs in a world
  \<open>'w\<close>, the state of everything outside the file system that running it may change
  (the repository traversal it consumes, the calls made to the language model), and
  returns its result or raises. \<open>dumps\<close> and \<open>loads\<close> are \<open>json.dumps\<close> and
  \<open>json.load\<close>.
\<close>

record file_system =
  dirs :: "string set"
  file_text :: "string \<rightharpoonup> string"

definition parent_of :: "string \<Rightarrow> string" where
  "parent_of file_path = rev (drop 1 (dropWhile (\<lambda>c. c \<noteq> CHR ''/'') (rev file_path)))"

text \<open>\<open>base_path.parent.mkdir(parents=True, exist_ok=True)\<close> when the directory is missing.\<close>

definition ensure_parent :: "string \<Rightarrow> file_system \<Rightarrow> file_system" where
  "ensure_parent file_path fs =
     (if parent_of file_path \<in> dirs fs then fs
      else fs\<lparr>dirs := insert (parent_of file_path) (dirs fs)\<rparr>)"

definition process_and_save ::
  "('r \<Rightarrow> error + string) \<Rightarrow> (string \<Rightarrow> error + 'r) \<Rightarrow> ('w \<Rightarrow> (error + 'r) \<times> 'w) \<Rightarrow>
   string \<Rightarrow> file_system \<times> 'w \<Rightarrow> (error + 'r) \<times> file_system \<times> 'w" where
  "process_and_save dumps loads process_method file_path state =
     (case state of (fs, w) \<Rightarrow>
        (let fs1 = ensure_parent file_path fs in
         case file_text fs1 file_path of
           Some content \<Rightarrow> (loads content, fs1, w)
         | None \<Rightarrow>
             (case process_method w of
                (Inl e, w') \<Rightarrow> (Inl e, fs1, w')
              | (Inr result, w') \<Rightarrow>
                  (case dumps result of
                     Inl e \<Rightarrow> (Inl e, fs1, w')
                   | Inr text \<Rightarrow>
                       (Inr result,
                        fs1\<lparr>file_text := (file_text fs1)(file_path \<mapsto> text)\<rparr>, w')))))"

subsection \<open>Example history\<close>




definition example_unify :: "'a list \<Rightarrow> error + string" where
  "example_unify items = Inr ''summary''"

definition example_daily :: "daily_summary list" where
  "example_daily =
     map (\<lambda>d. \<lparr> d_date = d, d_commit_count = 1, d_technologies = [(''Python'', 100)],
                d_descriptions = ''summary'' \<rparr>)
       [\<lparr> year = 2024, month = 3, day = 3 \<rparr>, \<lparr> year = 2024, month = 3, day = 4 \<rparr>,
        \<lparr> year = 2024, month = 4, day = 1 \<rparr>]"

definition example_weekly :: "weekly_summary list" where
  "example_weekly =
     map (\<lambda>(s, e). \<lparr> w_start_date = s, w_end_date = e, w_commit_count = 1,
                     w_technologies = [(''Python'', 100)], w_descriptions = ''summary'' \<rparr>)
       [(\<lparr> year = 2024, month = 2, day = 26 \<rparr>, \<lparr> year = 2024, month = 3, day = 3 \<rparr>),
        (\<lparr> year = 2024, month = 3, day = 4 \<rparr>, \<lparr> year = 2024, month = 3, day = 10 \<rparr>),
        (\<lparr> year = 2024, month = 4, day = 1 \<rparr>, \<lparr> year = 2024, month = 4, day = 7 \<rparr>)]"


subsection \<open>Example weights\<close>


subsection \<open>Example file systems\<close>

definition fresh_fs :: file_system where
  "fresh_fs = \<lparr> dirs = {}, file_text = Map.empty \<rparr>"

definition cached_fs :: file_system where
  "cached_fs = \<lparr> dirs = {''data''}, file_text = [''data/daily.json'' \<mapsto> ''cached''] \<rparr>"

section \<open>Reference notions used in the statements\<close>


definition keyed_by :: "('v \<Rightarrow> error + 'k) \<Rightarrow> ('k \<times> 'v list) list \<Rightarrow> bool" where
  "keyed_by key s =
     list_all (\<lambda>entry. list_all (\<lambda>x. key x = Inr (fst entry)) (snd entry)) s"

text \<open>
  \<open>members_all Q s\<close>: no group of \<open>s\<close> is empty and \<open>Q k x\<close> holds for every member
  \<open>x\<close> of the group with key \<open>k\<close>. A daily bucket belongs to the week starting on \<open>s\<close>
  when \<open>s\<close> is what the weekly summarizer computes from its date; a weekly bucket
  belongs to the month with first day \<open>k\<close> when \<open>k\<close> is its start date with the day set
  to 1.
\<close>

definition members_all :: "('k \<Rightarrow> 'v \<Rightarrow> bool) \<Rightarrow> ('k \<times> 'v list) list \<Rightarrow> bool" where
  "members_all Q s = list_all (\<lambda>entry. snd entry \<noteq> [] \<and> list_all (Q (fst entry)) (snd entry)) s"

definition week_member :: "date \<Rightarrow> daily_summary \<Rightarrow> bool" where
  "week_member s d = (valid_date (d_date d) \<and> week_start_of (d_date d) = Inr s)"


text \<open>
  \<open>chunks n xs\<close> cuts \<open>xs\<close> into consecutive pieces of \<open>n\<close> elements, the last piece
  holding what remains.
\<close>

function chunks :: "nat \<Rightarrow> 'a list \<Rightarrow> 'a list list" where
  "chunks n xs = (if n = 0 \<or> xs = [] then [] else take n xs # chunks n (drop n xs))"
  by pat_completeness auto
termination
  by (relation "measure (\<lambda>(n, xs). length xs)") auto

section \<open>The calendar\<close>

lemma div_step:
  fixes y k :: int
  assumes "0 < k"
  shows "y div k = (y - 1) div k + (if y mod k = 0 then 1 else 0)"
proof (cases "y mod k = 0")
  case True
  have "y - 1 = k * (y div k - 1) + (k - 1)"
    using True by (simp add: algebra_simps) (metis mult.commute mult_div_mod_eq add.right_neutral)
  then have "(y - 1) div k = y div k - 1"
    using assms by (intro int_div_pos_eq[where r = "k - 1"]) auto
  with True show ?thesis by simp
next
  case False
  have "0 \<le> y mod k" and r2: "y mod k < k"
    using assms by simp_all
  with False have r1: "0 < y mod k" by simp
  note r = r1 r2
  have "y - 1 = k * (y div k) + (y mod k - 1)"
    by (simp add: algebra_simps)
  then have "(y - 1) div k = y div k"
    using assms r by (intro int_div_pos_eq[where r = "y mod k - 1"]) auto
  with False show ?thesis by simp
qed

lemma days_before_year_Suc:
  "days_before_year (y + 1) = days_before_year y + 365 + (if is_leap y then 1 else 0)"
proof -
  define i4 :: int where "i4 = (if y mod 4 = 0 then 1 else 0)"
  define i100 :: int where "i100 = (if y mod 100 = 0 then 1 else 0)"
  define i400 :: int where "i400 = (if y mod 400 = 0 then 1 else 0)"
  define A where "A = y div 4"
  define A' where "A' = (y - 1) div 4"
  define B where "B = y div 100"
  define B' where "B' = (y - 1) div 100"
  define C where "C = y div 400"
  define C' where "C' = (y - 1) div 400"
  have a: "A = A' + i4"
    unfolding A_def A'_def i4_def by (rule div_step) simp
  have b: "B = B' + i100"
    unfolding B_def B'_def i100_def by (rule div_step) simp
  have c: "C = C' + i400"
    unfolding C_def C'_def i400_def by (rule div_step) simp
  have d1: "y mod 100 = 0 \<Longrightarrow> y mod 4 = 0"
    using mod_mod_cancel[of 4 100 y] by simp
  have d2: "y mod 400 = 0 \<Longrightarrow> y mod 100 = 0"
    using mod_mod_cancel[of 100 400 y] by simp
  have e1: "days_before_year (y + 1) = y * 365 + A - B + C"
    unfolding days_before_year_def Let_def A_def B_def C_def by simp
  have e2: "days_before_year y = (y - 1) * 365 + A' - B' + C'"
    unfolding days_before_year_def Let_def A'_def B'_def C'_def by simp
  have l: "(if is_leap y then 1 else 0) = i4 - i100 + i400"
  proof (cases "y mod 4 = 0")
    case False
    from False d1 have n100: "y mod 100 \<noteq> 0" by (rule contrapos_nn)
    from n100 d2 have n400: "y mod 400 \<noteq> 0" by (rule contrapos_nn)
    from False n100 n400 show ?thesis
      unfolding is_leap_def i4_def i100_def i400_def by (simp only: if_False if_True simp_thms; simp)
  next
    case m4: True
    show ?thesis
    proof (cases "y mod 100 = 0")
      case False
      from False d2 have n400: "y mod 400 \<noteq> 0" by (rule contrapos_nn)
      from False m4 n400 show ?thesis
        unfolding is_leap_def i4_def i100_def i400_def by (simp only: if_False if_True simp_thms; simp)
    next
      case m100: True
      show ?thesis
      proof (cases "y mod 400 = 0")
        case True
        with m4 m100 show ?thesis
          unfolding is_leap_def i4_def i100_def i400_def by (simp only: if_False if_True simp_thms; simp)
      next
        case False
        with m4 m100 show ?thesis
          unfolding is_leap_def i4_def i100_def i400_def by (simp only: if_False if_True simp_thms; simp)
      qed
    qed
  qed
  show ?thesis
    unfolding e1 e2 l a b c by (simp add: algebra_simps)
qed

lemma days_before_year_less: "days_before_year y < days_before_year (y + 1)"
  unfolding days_before_year_Suc by simp

lemma days_before_year_mono_nat: "days_before_year y \<le> days_before_year (y + int k)"
proof (induction k)
  case 0
  show ?case by simp
next
  case (Suc k)
  have "y + int (Suc k) = y + int k + 1" by simp
  then have "days_before_year (y + int k) < days_before_year (y + int (Suc k))"
    using days_before_year_less[of "y + int k"] by (simp only:)
  with Suc show ?case by linarith
qed

lemma days_before_year_mono: "y \<le> z \<Longrightarrow> days_before_year y \<le> days_before_year z"
  using days_before_year_mono_nat[of y "nat (z - y)"] by simp

lemma days_before_month_Suc:
  assumes "1 \<le> m" and "m < 12"
  shows "days_before_month y (m + 1) = days_before_month y m + days_in_month y m"
proof -
  from assms have "m = 1 \<or> m = 2 \<or> m = 3 \<or> m = 4 \<or> m = 5 \<or> m = 6 \<or> m = 7 \<or> m = 8
      \<or> m = 9 \<or> m = 10 \<or> m = 11"
    by arith
  then show ?thesis
    by (elim disjE) (simp_all add: days_before_month_def days_in_month_def)
qed

lemma days_before_month_12:
  "days_before_month y 12 + days_in_month y 12 = 365 + (if is_leap y then 1 else 0)"
  by (simp add: days_before_month_def days_in_month_def)

lemma days_before_month_1: "days_before_month y 1 = 0"
  by (simp add: days_before_month_def)

lemma days_in_month_range: "28 \<le> days_in_month y m \<and> days_in_month y m \<le> 31"
  by (simp add: days_in_month_def)

lemma toordinal_next_day:
  assumes "calendar_date d"
  shows "toordinal (next_day d) = toordinal d + 1"
proof -
  from assms have m: "1 \<le> month d" "month d \<le> 12"
    and dd: "1 \<le> day d" "day d \<le> days_in_month (year d) (month d)"
    by (simp_all add: calendar_date_def)
  show ?thesis
  proof (cases "day d < days_in_month (year d) (month d)")
    case True
    then show ?thesis by (simp add: next_day_def toordinal_def)
  next
    case False
    with dd have e: "day d = days_in_month (year d) (month d)" by simp
    show ?thesis
    proof (cases "month d < 12")
      case True
      have "toordinal (next_day d)
              = days_before_year (year d) + days_before_month (year d) (month d + 1) + 1"
        using False True by (simp add: next_day_def toordinal_def)
      also have "\<dots> = toordinal d + 1"
        unfolding days_before_month_Suc[OF m(1) True] toordinal_def e by simp
      finally show ?thesis .
    next
      case m12: False
      with m have m12': "month d = 12" by simp
      have "toordinal (next_day d) = days_before_year (year d + 1) + 1"
        using False m12 by (simp add: next_day_def toordinal_def days_before_month_1)
      also have "\<dots> = days_before_year (year d) + (days_before_month (year d) 12
                      + days_in_month (year d) 12) + 1"
        unfolding days_before_year_Suc days_before_month_12 by simp
      also have "\<dots> = toordinal d + 1"
        unfolding toordinal_def e m12' by simp
      finally show ?thesis .
    qed
  qed
qed

lemma calendar_next_day:
  assumes "calendar_date d"
  shows "calendar_date (next_day d)"
proof -
  from assms have m: "1 \<le> month d" "month d \<le> 12"
    and dd: "1 \<le> day d" "day d \<le> days_in_month (year d) (month d)"
    by (simp_all add: calendar_date_def)
  show ?thesis
  proof (cases "day d < days_in_month (year d) (month d)")
    case True
    with m dd show ?thesis by (simp add: next_day_def calendar_date_def)
  next
    case False
    show ?thesis
    proof (cases "month d < 12")
      case True
      with False m days_in_month_range[of "year d" "month d + 1"] show ?thesis
        by (simp add: next_day_def calendar_date_def)
    next
      case m12: False
      with False days_in_month_range[of "year d + 1" 1] show ?thesis
        by (simp add: next_day_def calendar_date_def)
    qed
  qed
qed

lemma toordinal_prev_day:
  assumes "calendar_date d"
  shows "toordinal (prev_day d) = toordinal d - 1"
proof -
  from assms have m: "1 \<le> month d" "month d \<le> 12"
    and dd: "1 \<le> day d" "day d \<le> days_in_month (year d) (month d)"
    by (simp_all add: calendar_date_def)
  show ?thesis
  proof (cases "day d > 1")
    case True
    then show ?thesis by (simp add: prev_day_def toordinal_def)
  next
    case False
    with dd have e: "day d = 1" by simp
    show ?thesis
    proof (cases "month d > 1")
      case True
      have s: "days_before_month (year d) (month d - 1 + 1)
                 = days_before_month (year d) (month d - 1) + days_in_month (year d) (month d - 1)"
        using True m by (intro days_before_month_Suc) simp_all
      have "toordinal (prev_day d)
              = days_before_year (year d) + (days_before_month (year d) (month d - 1)
                   + days_in_month (year d) (month d - 1))"
        using False True by (simp add: prev_day_def toordinal_def)
      also have "\<dots> = days_before_year (year d) + days_before_month (year d) (month d)"
        unfolding s[symmetric] by simp
      also have "\<dots> = toordinal d - 1"
        unfolding toordinal_def e by simp
      finally show ?thesis .
    next
      case m1: False
      with m have m1': "month d = 1" by simp
      have "toordinal (prev_day d)
              = days_before_year (year d - 1) + (days_before_month (year d - 1) 12
                  + days_in_month (year d - 1) 12)"
        using False m1 by (simp add: prev_day_def toordinal_def days_in_month_def)
      also have "\<dots> = days_before_year (year d - 1 + 1)"
        unfolding days_before_year_Suc days_before_month_12 by simp
      also have "\<dots> = toordinal d - 1"
        unfolding toordinal_def e m1' by (simp add: days_before_month_1)
      finally show ?thesis .
    qed
  qed
qed

lemma calendar_prev_day:
  assumes "calendar_date d"
  shows "calendar_date (prev_day d)"
proof -
  from assms have m: "1 \<le> month d" "month d \<le> 12"
    and dd: "1 \<le> day d" "day d \<le> days_in_month (year d) (month d)"
    by (simp_all add: calendar_date_def)
  show ?thesis
  proof (cases "day d > 1")
    case True
    with m dd show ?thesis by (simp add: prev_day_def calendar_date_def)
  next
    case False
    show ?thesis
    proof (cases "month d > 1")
      case True
      with False m days_in_month_range[of "year d" "month d - 1"] show ?thesis
        by (simp add: prev_day_def calendar_date_def)
    next
      case m1: False
      with False show ?thesis
        by (simp add: prev_day_def calendar_date_def days_in_month_def)
    qed
  qed
qed

lemma funpow_next_day:
  "calendar_date d \<Longrightarrow>
     calendar_date ((next_day ^^ k) d) \<and> toordinal ((next_day ^^ k) d) = toordinal d + int k"
proof (induction k)
  case 0
  then show ?case by simp
next
  case (Suc k)
  then have c: "calendar_date ((next_day ^^ k) d)"
    and t: "toordinal ((next_day ^^ k) d) = toordinal d + int k" by simp_all
  show ?case
    using calendar_next_day[OF c] toordinal_next_day[OF c] t by simp
qed

lemma funpow_prev_day:
  "calendar_date d \<Longrightarrow>
     calendar_date ((prev_day ^^ k) d) \<and> toordinal ((prev_day ^^ k) d) = toordinal d - int k"
proof (induction k)
  case 0
  then show ?case by simp
next
  case (Suc k)
  then have c: "calendar_date ((prev_day ^^ k) d)"
    and t: "toordinal ((prev_day ^^ k) d) = toordinal d - int k" by simp_all
  show ?case
    using calendar_prev_day[OF c] toordinal_prev_day[OF c] t by simp
qed

lemma day_of_year_bounds:
  assumes "calendar_date d"
  shows "1 \<le> days_before_month (year d) (month d) + day d"
    and "days_before_month (year d) (month d) + day d \<le> 365 + (if is_leap (year d) then 1 else 0)"
proof -
  from assms have m: "1 \<le> month d" "month d \<le> 12"
    and dd: "1 \<le> day d" "day d \<le> days_in_month (year d) (month d)"
    by (simp_all add: calendar_date_def)
  from m have cases: "month d = 1 \<or> month d = 2 \<or> month d = 3 \<or> month d = 4 \<or> month d = 5
      \<or> month d = 6 \<or> month d = 7 \<or> month d = 8 \<or> month d = 9 \<or> month d = 10
      \<or> month d = 11 \<or> month d = 12"
    by arith
  from cases dd show "1 \<le> days_before_month (year d) (month d) + day d"
    by (elim disjE) (simp_all add: days_before_month_def)
  from cases dd
  show "days_before_month (year d) (month d) + day d \<le> 365 + (if is_leap (year d) then 1 else 0)"
    by (elim disjE; cases "is_leap (year d)")
       (simp_all add: days_before_month_def days_in_month_def)
qed

lemma toordinal_bounds:
  assumes "calendar_date d"
  shows "days_before_year (year d) < toordinal d"
    and "toordinal d \<le> days_before_year (year d + 1)"
  using day_of_year_bounds[OF assms]
  unfolding toordinal_def days_before_year_Suc by linarith+

lemma days_before_year_1: "days_before_year 1 = 0"
  by (simp add: days_before_year_def)

lemma days_before_year_10000: "days_before_year 10000 = max_ordinal"
  by (simp add: days_before_year_def max_ordinal_def)

lemma valid_date_calendar: "valid_date d \<Longrightarrow> calendar_date d"
  by (simp add: valid_date_def calendar_date_def)

lemma valid_date_ordinal:
  assumes "valid_date d"
  shows "0 < toordinal d" and "toordinal d \<le> max_ordinal"
proof -
  from assms have c: "calendar_date d" and y: "1 \<le> year d" "year d \<le> 9999"
    by (simp_all add: valid_date_def calendar_date_def)
  from days_before_year_mono[OF y(1)] toordinal_bounds(1)[OF c]
  show "0 < toordinal d" by (simp add: days_before_year_1)
  from y(2) have "year d + 1 \<le> 10000" by simp
  from days_before_year_mono[OF this] toordinal_bounds(2)[OF c]
  show "toordinal d \<le> max_ordinal" by (simp add: days_before_year_10000)
qed

lemma calendar_ordinal_valid:
  assumes "calendar_date d" and "0 < toordinal d" and "toordinal d \<le> max_ordinal"
  shows "valid_date d"
proof -
  have "1 \<le> year d"
  proof (rule ccontr)
    assume "\<not> 1 \<le> year d"
    then have "year d + 1 \<le> 1" by simp
    from days_before_year_mono[OF this] toordinal_bounds(2)[OF assms(1)] assms(2)
    show False by (simp add: days_before_year_1)
  qed
  moreover have "year d \<le> 9999"
  proof (rule ccontr)
    assume "\<not> year d \<le> 9999"
    then have "10000 \<le> year d" by simp
    from days_before_year_mono[OF this] toordinal_bounds(1)[OF assms(1)] assms(3)
    show False by (simp add: days_before_year_10000)
  qed
  ultimately show ?thesis
    using assms(1) by (simp add: valid_date_def calendar_date_def)
qed

lemma date_add_Inr:
  assumes "valid_date d" and "date_add d k = Inr d'"
  shows "valid_date d'" and "toordinal d' = toordinal d + k"
proof -
  from assms(2) have rng: "0 < toordinal d + k" "toordinal d + k \<le> max_ordinal"
    by (auto simp: date_add_def Let_def split: if_splits)
  from assms(1) have c: "calendar_date d" by (rule valid_date_calendar)
  have "calendar_date d' \<and> toordinal d' = toordinal d + k"
  proof (cases "k \<ge> 0")
    case True
    with assms(2) rng have "d' = (next_day ^^ nat k) d"
      by (simp add: date_add_def Let_def)
    with funpow_next_day[OF c, of "nat k"] True show ?thesis by simp
  next
    case False
    with assms(2) rng have "d' = (prev_day ^^ nat (- k)) d"
      by (simp add: date_add_def Let_def)
    with funpow_prev_day[OF c, of "nat (- k)"] False show ?thesis by simp
  qed
  then show "toordinal d' = toordinal d + k" and "valid_date d'"
    using calendar_ordinal_valid[of d'] rng by simp_all
qed

lemma toordinal_date_add:
  "date_add d k = Inr d' \<Longrightarrow> valid_date d \<Longrightarrow> toordinal d' = toordinal d + k"
  using date_add_Inr(2) by blast

lemma date_add_in_range:
  "0 < toordinal d + k \<Longrightarrow> toordinal d + k \<le> max_ordinal \<Longrightarrow> \<exists>d'. date_add d k = Inr d'"
  by (simp add: date_add_def Let_def)

lemma date_add_out_of_range:
  "\<not> (0 < toordinal d + k \<and> toordinal d + k \<le> max_ordinal) \<Longrightarrow>
     date_add d k = Inl OverflowError"
  by (simp add: date_add_def Let_def)

lemma weekday_range: "0 \<le> weekday d \<and> weekday d \<le> 6"
  unfolding weekday_def by simp

lemma weekday_le_ordinal:
  assumes "0 < toordinal d"
  shows "weekday d < toordinal d"
proof -
  define x where "x = toordinal d - 1"
  have x: "0 \<le> x" using assms by (simp add: x_def)
  have "toordinal d + 6 = x + 7" by (simp add: x_def)
  then have "weekday d = (x + 7) mod 7" by (simp only: weekday_def)
  also have "\<dots> = x mod 7" by simp
  also have "\<dots> \<le> x" using x by (rule zmod_le_nonneg_dividend)
  finally show ?thesis by (simp add: x_def)
qed

lemma week_start_of_valid:
  assumes "valid_date d"
  shows "\<exists>s. week_start_of d = Inr s \<and> valid_date s \<and> weekday s = 0 \<and>
           toordinal s = toordinal d - weekday d"
proof -
  from valid_date_ordinal[OF assms] have o: "0 < toordinal d" "toordinal d \<le> max_ordinal" .
  from weekday_le_ordinal[OF o(1)] weekday_range[of d] o
  have "0 < toordinal d + (- weekday d)" "toordinal d + (- weekday d) \<le> max_ordinal"
    by simp_all
  from date_add_in_range[OF this] obtain s where s: "date_add d (- weekday d) = Inr s"
    by blast
  from date_add_Inr[OF assms s] have v: "valid_date s"
    and t: "toordinal s = toordinal d - weekday d" by simp_all
  have "weekday s = (toordinal d + 6 - (toordinal d + 6) mod 7) mod 7"
    unfolding weekday_def[of s] t weekday_def[of d] by (simp add: algebra_simps)
  also have "\<dots> = 0"
    by (simp add: minus_mod_eq_mult_div)
  finally have "weekday s = 0" .
  with s v t show ?thesis by (simp add: week_start_of_def)
qed

lemma days_in_month_cases:
  "days_in_month y m = 28 \<or> days_in_month y m = 29 \<or> days_in_month y m = 30
     \<or> days_in_month y m = 31"
  by (simp add: days_in_month_def)










lemma sunday_monday_different_weeks:
  assumes v: "valid_date a" and sun: "weekday a = 6" and nxt: "date_add a 1 = Inr b"
  shows "week_start_of a \<noteq> week_start_of b"
proof -
  from date_add_Inr[OF v nxt] have vb: "valid_date b" and tb: "toordinal b = toordinal a + 1"
    by simp_all
  from week_start_of_valid[OF v] obtain sa where
    sa: "week_start_of a = Inr sa" "toordinal sa = toordinal a - weekday a" by blast
  from week_start_of_valid[OF vb] obtain sb where
    sb: "week_start_of b = Inr sb" "toordinal sb = toordinal b - weekday b" by blast
  have "weekday b = (toordinal a + 6 + 1) mod 7"
    unfolding weekday_def tb by (simp add: algebra_simps)
  also have "\<dots> = ((toordinal a + 6) mod 7 + 1) mod 7"
    by (simp add: mod_simps)
  also have "\<dots> = 0"
    using sun unfolding weekday_def by simp
  finally have wb: "weekday b = 0" .
  have "toordinal sa \<noteq> toordinal sb"
    unfolding sa(2) sb(2) tb wb sun by simp
  then have "sa \<noteq> sb" by auto
  with sa(1) sb(1) show ?thesis by simp
qed

section \<open>Grouping\<close>

lemma group_append_keys:
  "map fst (group_append k v s) = (if k \<in> set (map fst s) then map fst s else map fst s @ [k])"
  by (induction s) (fastforce simp: image_iff)+

lemma group_append_distinct:
  "distinct (map fst s) \<Longrightarrow> distinct (map fst (group_append k v s))"
  by (simp add: group_append_keys)

lemma group_append_map_of:
  "map_of (group_append k v s)
     = (map_of s)(k \<mapsto> (case map_of s k of None \<Rightarrow> [v] | Some g \<Rightarrow> g @ [v]))"
  by (induction s) (auto simp: fun_eq_iff)


lemma group_append_keyed:
  "keyed_by key s \<Longrightarrow> key v = Inr k \<Longrightarrow> keyed_by key (group_append k v s)"
  by (induction s) (auto simp: keyed_by_def)


lemma group_by_key_invariant:
  "group_by_key key xs s = Inr s' \<Longrightarrow> distinct (map fst s) \<Longrightarrow> keyed_by key s \<Longrightarrow>
     distinct (map fst s') \<and> keyed_by key s'"
proof (induction xs arbitrary: s)
  case Nil
  then show ?case by simp
next
  case (Cons x xs)
  then obtain k where k: "key x = Inr k" and r: "group_by_key key xs (group_append k x s) = Inr s'"
    by (cases "key x") auto
  from Cons.IH[OF r group_append_distinct[OF Cons.prems(2)] group_append_keyed[OF Cons.prems(3) k]]
  show ?case .
qed

lemma group_by_key_keeps:
  "group_by_key key xs s = Inr s' \<Longrightarrow> map_of s k = Some g \<Longrightarrow>
     \<exists>g'. map_of s' k = Some g' \<and> set g \<subseteq> set g'"
proof (induction xs arbitrary: s g)
  case Nil
  then show ?case by simp
next
  case (Cons x xs)
  then obtain k' where k': "key x = Inr k'" and r: "group_by_key key xs (group_append k' x s) = Inr s'"
    by (cases "key x") auto
  obtain g1 where g1: "map_of (group_append k' x s) k = Some g1" "set g \<subseteq> set g1"
    using Cons.prems(2) by (cases "k = k'") (auto simp: group_append_map_of)
  from Cons.IH[OF r g1(1)] g1(2) show ?case by blast
qed

lemma group_by_key_members:
  "group_by_key key xs s = Inr s' \<Longrightarrow> x \<in> set xs \<Longrightarrow>
     \<exists>k g. key x = Inr k \<and> map_of s' k = Some g \<and> x \<in> set g"
proof (induction xs arbitrary: s)
  case Nil
  then show ?case by simp
next
  case (Cons y xs)
  then obtain k where k: "key y = Inr k" and r: "group_by_key key xs (group_append k y s) = Inr s'"
    by (cases "key y") auto
  show ?case
  proof (cases "x = y")
    case True
    obtain g1 where g1: "map_of (group_append k y s) k = Some g1" "y \<in> set g1"
      by (cases "map_of s k") (auto simp: group_append_map_of)
    from group_by_key_keeps[OF r g1(1)] g1(2) k True show ?thesis by blast
  next
    case False
    with Cons.prems(2) have "x \<in> set xs" by simp
    from Cons.IH[OF r this] show ?thesis .
  qed
qed

lemma group_by_key_returns:
  "list_all (\<lambda>x. \<exists>k. key x = Inr k) xs \<Longrightarrow> \<exists>s'. group_by_key key xs s = Inr s'"
proof (induction xs arbitrary: s)
  case Nil
  then show ?case by simp
next
  case (Cons x xs)
  then obtain k where k: "key x = Inr k" by auto
  from Cons have "\<exists>s'. group_by_key key xs (group_append k x s) = Inr s'" by simp
  with k show ?case by simp
qed

lemma map_err_Inr:
  "map_err f xs = Inr ys \<Longrightarrow> list_all2 (\<lambda>x y. f x = Inr y) xs ys"
proof (induction xs arbitrary: ys)
  case Nil
  then show ?case by simp
next
  case (Cons x xs)
  then obtain y zs where y: "f x = Inr y" and zs: "map_err f xs = Inr zs" and ys: "ys = y # zs"
    by (auto split: sum.splits)
  from Cons.IH[OF zs] y ys show ?case by simp
qed

lemma keyed_by_map_of:
  "keyed_by key s \<Longrightarrow> map_of s k = Some g \<Longrightarrow> x \<in> set g \<Longrightarrow> key x = Inr k"
  by (auto simp: keyed_by_def list_all_iff dest!: map_of_SomeD)

section \<open>Pagination of the extracted commits\<close>

declare chunks.simps [simp del]

lemma chunks_Nil: "chunks n [] = []"
  by (simp add: chunks.simps)

lemma chunks_short: "xs \<noteq> [] \<Longrightarrow> length xs \<le> n \<Longrightarrow> chunks n xs = [xs]"
  by (subst chunks.simps) (cases n; auto simp: chunks_Nil)

lemma chunks_full: "0 < n \<Longrightarrow> length x = n \<Longrightarrow> chunks n (x @ ys) = x # chunks n ys"
  by (subst chunks.simps) auto

lemma chunks_unfold:
  "0 < n \<Longrightarrow> xs \<noteq> [] \<Longrightarrow> chunks n xs = take n xs # chunks n (drop n xs)"
  by (subst chunks.simps) simp

lemma concat_chunks: "0 < n \<Longrightarrow> concat (chunks n xs) = xs"
proof (induction n xs rule: chunks.induct)
  case (1 n xs)
  show ?case
  proof (cases "xs = []")
    case True
    then show ?thesis by (simp add: chunks_Nil)
  next
    case False
    have "concat (chunks n (drop n xs)) = drop n xs"
      using "1.IH" False "1.prems" by blast
    then show ?thesis
      using False "1.prems" by (simp add: chunks_unfold)
  qed
qed

lemma chunks_lengths:
  "0 < n \<Longrightarrow> (\<forall>b \<in> set (butlast (chunks n xs)). length b = n) \<and>
     (\<forall>b \<in> set (chunks n xs). b \<noteq> [] \<and> length b \<le> n)"
proof (induction n xs rule: chunks.induct)
  case (1 n xs)
  show ?case
  proof (cases "xs = []")
    case True
    then show ?thesis by (simp add: chunks_Nil)
  next
    case False
    have ih: "(\<forall>b \<in> set (butlast (chunks n (drop n xs))). length b = n) \<and>
              (\<forall>b \<in> set (chunks n (drop n xs)). b \<noteq> [] \<and> length b \<le> n)"
      using "1.IH" False "1.prems" by blast
    have eq: "chunks n xs = take n xs # chunks n (drop n xs)"
      using "1.prems" False by (rule chunks_unfold)
    have first_ok: "take n xs \<noteq> [] \<and> length (take n xs) \<le> n"
      using False "1.prems" by simp
    have all_ok: "\<forall>b \<in> set (chunks n xs). b \<noteq> [] \<and> length b \<le> n"
    proof
      fix b
      assume "b \<in> set (chunks n xs)"
      then have "b = take n xs \<or> b \<in> set (chunks n (drop n xs))"
        by (simp only: eq set_simps insert_iff)
      then show "b \<noteq> [] \<and> length b \<le> n"
      proof
        assume e: "b = take n xs"
        show ?thesis unfolding e by (rule first_ok)
      next
        assume "b \<in> set (chunks n (drop n xs))"
        then show ?thesis using conjunct2[OF ih] by (rule_tac bspec)
      qed
    qed
    have init_ok: "\<forall>b \<in> set (butlast (chunks n xs)). length b = n"
    proof (cases "chunks n (drop n xs) = []")
      case True
      then show ?thesis by (simp add: eq)
    next
      case more: False
      then have "drop n xs \<noteq> []"
        using chunks_Nil by metis
      then have full: "length (take n xs) = n" by simp
      have bl: "butlast (chunks n xs) = take n xs # butlast (chunks n (drop n xs))"
        using eq more by simp
      show ?thesis
      proof
        fix b
        assume "b \<in> set (butlast (chunks n xs))"
        then have "b = take n xs \<or> b \<in> set (butlast (chunks n (drop n xs)))"
          by (simp only: bl set_simps insert_iff)
        then show "length b = n"
        proof
          assume e: "b = take n xs"
          show ?thesis unfolding e by (rule full)
        next
          assume "b \<in> set (butlast (chunks n (drop n xs)))"
          then show ?thesis using conjunct1[OF ih] by (rule_tac bspec)
        qed
      qed
    qed
    from init_ok all_ok show ?thesis by (rule conjI)
  qed
qed

lemma chunks_250:
  assumes "length xs = 250"
  shows "map length (chunks 100 xs) = [100, 100, 50]"
proof -
  have 1: "chunks 100 xs = take 100 xs # chunks 100 (drop 100 xs)"
    using assms by (intro chunks_unfold) auto
  have 2: "chunks 100 (drop 100 xs)
             = take 100 (drop 100 xs) # chunks 100 (drop 100 (drop 100 xs))"
    using assms by (intro chunks_unfold) auto
  have 3: "chunks 100 (drop 100 (drop 100 xs)) = [drop 100 (drop 100 xs)]"
    using assms by (intro chunks_short) auto
  have "map length (chunks 100 xs)
          = [length (take 100 xs), length (take 100 (drop 100 xs)),
             length (drop 100 (drop 100 xs))]"
    by (simp only: 1 2 3 list.map)
  then show ?thesis
    using assms by simp
qed

lemma scan_commits_chunks:
  "scan_commits a cs batch = (ys, b) \<Longrightarrow> 0 < page_size a \<Longrightarrow>
   int (length batch) < page_size a \<Longrightarrow>
   int (length b) < page_size a \<and>
   (\<forall>rest. chunks (nat (page_size a))
             (batch @ map commit_data (filter (survives a) cs) @ rest)
           = ys @ chunks (nat (page_size a)) (b @ rest))"
proof (induction cs arbitrary: batch ys b)
  case Nil
  then show ?case by simp
next
  case (Cons c cs)
  show ?case
  proof (cases "survives a c")
    case False
    with Cons show ?thesis by simp
  next
    case True
    let ?b' = "batch @ [commit_data c]"
    let ?n = "nat (page_size a)"
    let ?more = "map commit_data (filter (survives a) cs)"
    show ?thesis
    proof (cases "int (length ?b') \<ge> page_size a")
      case full: True
      obtain ys' b' where sc: "scan_commits a cs [] = (ys', b')"
        by (cases "scan_commits a cs []")
      from Cons.prems True full sc have ys: "ys = ?b' # ys'" and b: "b = b'"
        by (auto simp: Let_def)
      from Cons.IH[OF sc] Cons.prems have ih: "int (length b') < page_size a"
        "\<And>rest. chunks ?n (?more @ rest) = ys' @ chunks ?n (b' @ rest)"
        by auto
      from full Cons.prems have len: "length ?b' = ?n" by auto
      have "\<And>rest. chunks ?n (?b' @ (?more @ rest)) = ?b' # chunks ?n (?more @ rest)"
        using chunks_full[OF _ len] Cons.prems by auto
      with ih ys b True show ?thesis by simp
    next
      case notfull: False
      from Cons.prems True notfull have sc: "scan_commits a cs ?b' = (ys, b)"
        by (auto simp: Let_def)
      from Cons.IH[OF sc] Cons.prems notfull True show ?thesis by simp
    qed
  qed
qed

lemma scan_branches_chunks:
  "0 < page_size a \<Longrightarrow> int (length batch) < page_size a \<Longrightarrow>
   scan_branches r a bs batch = chunks (nat (page_size a)) (batch @ surviving_of r a bs)"
proof (induction bs arbitrary: batch)
  case Nil
  then show ?case
    by (cases "batch = []") (auto simp: surviving_of_def chunks_Nil chunks_short)
next
  case (Cons branch bs)
  let ?n = "nat (page_size a)"
  show ?case
  proof (cases "map_of (branches r) branch")
    case None
    with Cons show ?thesis by (simp add: surviving_of_def)
  next
    case (Some cs)
    let ?more = "map commit_data (filter (survives a) cs)"
    obtain ys b where sc: "scan_commits a cs batch = (ys, b)"
      by (cases "scan_commits a cs batch")
    from scan_commits_chunks[OF sc Cons.prems] have b: "int (length b) < page_size a"
      and ch: "\<And>rest. chunks ?n (batch @ ?more @ rest) = ys @ chunks ?n (b @ rest)"
      by auto
    have "scan_branches r a (branch # bs) batch = ys @ scan_branches r a bs b"
      using Some sc by simp
    also have "\<dots> = ys @ chunks ?n (b @ surviving_of r a bs)"
      using Cons.IH[OF Cons.prems(1) b] by simp
    also have "\<dots> = chunks ?n (batch @ ?more @ surviving_of r a bs)"
      using ch by simp
    also have "batch @ ?more @ surviving_of r a bs = batch @ surviving_of r a (branch # bs)"
      using Some by (simp add: surviving_of_def)
    finally show ?thesis .
  qed
qed

lemma scan_commits_nonempty:
  "scan_commits a cs batch = (ys, b) \<Longrightarrow> [] \<notin> set ys"
proof (induction cs arbitrary: batch ys b)
  case Nil
  then show ?case by simp
next
  case (Cons c cs)
  show ?case
  proof (cases "survives a c")
    case False
    with Cons show ?thesis by simp
  next
    case True
    show ?thesis
    proof (cases "int (length (batch @ [commit_data c])) \<ge> page_size a")
      case full: True
      obtain ys' b' where sc: "scan_commits a cs [] = (ys', b')"
        by (cases "scan_commits a cs []")
      from Cons.prems True full sc have ys: "ys = (batch @ [commit_data c]) # ys'"
        by (simp add: Let_def)
      from Cons.IH[OF sc] ys show ?thesis by simp
    next
      case False
      with Cons.prems True have "scan_commits a cs (batch @ [commit_data c]) = (ys, b)"
        by (simp add: Let_def)
      from Cons.IH[OF this] show ?thesis .
    qed
  qed
qed

lemma scan_branches_nonempty: "[] \<notin> set (scan_branches r a bs batch)"
proof (induction bs arbitrary: batch)
  case Nil
  then show ?case by simp
next
  case (Cons branch bs)
  show ?case
  proof (cases "map_of (branches r) branch")
    case None
    with Cons show ?thesis by simp
  next
    case (Some cs)
    obtain ys b where sc: "scan_commits a cs batch = (ys, b)"
      by (cases "scan_commits a cs batch")
    from scan_commits_nonempty[OF sc] Cons[of b] Some sc show ?thesis by simp
  qed
qed

lemma branches_to_iterate_nonempty: "branches r \<noteq> [] \<Longrightarrow> branches_to_iterate r a \<noteq> []"
  by (simp add: branches_to_iterate_def split: option.splits)

lemma example_survives: "survives (example_args n) (example_commit h)"
  by (simp add: survives_def example_args_def example_commit_def is_relevant_commit_def
      strip_def is_space_def lower_def lower_char_def)

lemma example_args_sel:
  "page_size (example_args n) = n" "repo_branches (example_args n) = None"
  by (simp_all add: example_args_def)

text \<open>
  Claim C6. On a repository that can be read (not bare, with a branch) and with a
  positive \<open>page_size\<close>, \<open>extract_commits_by_author\<close> returns, and the batches it yields
  are the surviving commits in traversal order cut into pieces of \<open>page_size\<close>: their
  concatenation is the list of surviving commits, every batch but the last holds exactly
  \<open>page_size\<close> commits, and every batch is non-empty and holds at most \<open>page_size\<close>
  commits. With 250 surviving commits and \<open>page_size = 100\<close> the batches have the sizes
  100, 100 and 50.
\<close>

theorem extract_paginates:
  assumes "\<not> bare r" and "branches r \<noteq> []" and "0 < page_size a"
  shows "\<exists>bs. extract_commits_by_author (Some r) a = Inr bs \<and>
           bs = chunks (nat (page_size a)) (surviving r a) \<and>
           concat bs = surviving r a \<and>
           (\<forall>b \<in> set (butlast bs). int (length b) = page_size a) \<and>
           (\<forall>b \<in> set bs. b \<noteq> [] \<and> int (length b) \<le> page_size a) \<and>
           (length (surviving r a) = 250 \<and> page_size a = 100
              \<longrightarrow> map length bs = [100, 100, 50])"
proof -
  let ?n = "nat (page_size a)"
  let ?bs = "chunks ?n (surviving r a)"
  have n: "0 < ?n" using assms(3) by simp
  have ex: "extract_commits_by_author (Some r) a = Inr ?bs"
    using assms scan_branches_chunks[of a "[]" r "branches_to_iterate r a"]
    by (simp add: extract_commits_by_author_def branches_to_iterate_nonempty surviving_def)
  have cc: "concat ?bs = surviving r a"
    using n by (rule concat_chunks)
  have l1: "\<forall>b \<in> set (butlast ?bs). int (length b) = page_size a"
    using chunks_lengths[OF n, of "surviving r a"] assms(3) by auto
  have l2: "\<forall>b \<in> set ?bs. b \<noteq> [] \<and> int (length b) \<le> page_size a"
    using chunks_lengths[OF n, of "surviving r a"] assms(3) by auto
  have l3: "length (surviving r a) = 250 \<and> page_size a = 100
              \<longrightarrow> map length ?bs = [100, 100, 50]"
    by (auto simp: chunks_250)
  show ?thesis
    by (intro exI[of _ ?bs] conjI ex refl cc l1 l2 l3)
qed

theorem extract_paginates_witness:
  "\<not> bare big_repo \<and> branches big_repo \<noteq> [] \<and> 0 < page_size (example_args 100) \<and>
   (\<exists>bs. extract_commits_by_author (Some big_repo) (example_args 100) = Inr bs \<and>
      length (concat bs) = 250 \<and> map length bs = [100, 100, 50])"
proof -
  have h1: "\<not> bare big_repo" and h2: "branches big_repo \<noteq> []"
    by (simp_all add: big_repo_def)
  have h3: "0 < page_size (example_args 100)"
    by (simp add: example_args_sel)
  have len: "length (surviving big_repo (example_args 100)) = 250"
    by (simp add: surviving_def surviving_of_def big_repo_def branches_to_iterate_def
        example_survives example_args_sel filter_replicate)
  from extract_paginates[OF h1 h2 h3] len h1 h2 h3 show ?thesis
    by (auto simp: example_args_sel)
qed

text \<open>
  Claim C10. Whatever the repository, the filters and \<open>page_size\<close> (zero and negative
  values included), no batch yielded by \<open>extract_commits_by_author\<close> is empty. A batch
  can hold commits of more than one branch: on the repository \<open>two_branch_repo\<close>, whose
  branches \<open>main\<close> and \<open>dev\<close> have one commit each, \<open>page_size = 2\<close> yields a single
  batch with both commits.
\<close>

theorem batches_never_empty:
  "(\<forall>bs. extract_commits_by_author opened a = Inr bs \<longrightarrow> [] \<notin> set bs) \<and>
   extract_commits_by_author (Some two_branch_repo) (example_args 2)
     = Inr [[commit_data (example_commit ''a1''), commit_data (example_commit ''b2'')]]"
proof
  show "\<forall>bs. extract_commits_by_author opened a = Inr bs \<longrightarrow> [] \<notin> set bs"
    by (auto simp: extract_commits_by_author_def scan_branches_nonempty
        split: option.splits if_splits)
  show "extract_commits_by_author (Some two_branch_repo) (example_args 2)
     = Inr [[commit_data (example_commit ''a1''), commit_data (example_commit ''b2'')]]"
    by (simp add: extract_commits_by_author_def two_branch_repo_def branches_to_iterate_def
        example_survives example_args_sel)
qed

theorem batches_never_empty_witness:
  "extract_commits_by_author (Some two_branch_repo) (example_args 0)
     = Inr [[commit_data (example_commit ''a1'')], [commit_data (example_commit ''b2'')]] \<and>
   [] \<notin> set [[commit_data (example_commit ''a1'')], [commit_data (example_commit ''b2'')]]"
proof -
  have e: "extract_commits_by_author (Some two_branch_repo) (example_args 0)
     = Inr [[commit_data (example_commit ''a1'')], [commit_data (example_commit ''b2'')]]"
    by (simp add: extract_commits_by_author_def two_branch_repo_def branches_to_iterate_def
        example_survives example_args_sel)
  from batches_never_empty[of "Some two_branch_repo" "example_args 0"] e show ?thesis
    by blast
qed

section \<open>The relevance filter\<close>

lemma is_relevant_commit_iff:
  "is_relevant_commit m kws \<longleftrightarrow>
     \<not> (length (strip m) < 10 \<or>
        (\<exists>k \<in> set (case kws of None \<Rightarrow> [] | Some l \<Rightarrow> l). is_substring k (lower m)))"
  by (auto simp: is_relevant_commit_def Let_def list_ex_iff split: option.splits)

text \<open>
  Claim C5. The claim excludes a commit whose lowercased message contains the lowercased
  form of an ignore keyword. The code lowercases the message only: with the keyword
  \<open>Typo\<close> the commit \<open>typo fix for header\<close> is kept as relevant, although its
  message contains the lowercased keyword, and it is excluded when the same keyword is
  given as \<open>typo\<close>.
\<close>

theorem relevance_filter_keyword_case:
  "is_relevant_commit ''typo fix for header'' (Some [''Typo'']) \<and>
   is_substring (lower ''Typo'') (lower ''typo fix for header'') \<and>
   \<not> is_relevant_commit ''typo fix for header'' (Some [''typo''])"
  by code_simp

section \<open>The stage cache\<close>

text \<open>
  Claim C9. When the file of the stage exists, \<open>process_and_save\<close> returns what
  \<open>loads\<close> reads from it, whatever the stage function is, and leaves the world as it
  was: the stage function is not run. When the file does not exist the stage function
  runs; if it raises, or if \<open>dumps\<close> raises on its result, the exception comes out and
  no file is written; if both return, the result is returned and the file then holds
  its text. Creating the parent directory changes no file.
\<close>

theorem process_and_save_all_or_nothing:
  "(file_text fs file_path = Some content \<longrightarrow>
      process_and_save dumps loads process_method file_path (fs, w)
        = (loads content, ensure_parent file_path fs, w)) \<and>
   (file_text fs file_path = None \<and> process_method w = (Inl e, w') \<longrightarrow>
      process_and_save dumps loads process_method file_path (fs, w)
        = (Inl e, ensure_parent file_path fs, w')) \<and>
   (file_text fs file_path = None \<and> process_method w = (Inr result, w') \<and>
    dumps result = Inl e \<longrightarrow>
      process_and_save dumps loads process_method file_path (fs, w)
        = (Inl e, ensure_parent file_path fs, w')) \<and>
   (file_text fs file_path = None \<and> process_method w = (Inr result, w') \<and>
    dumps result = Inr text \<longrightarrow>
      process_and_save dumps loads process_method file_path (fs, w)
        = (Inr result,
           (ensure_parent file_path fs)\<lparr>file_text := (file_text fs)(file_path \<mapsto> text)\<rparr>,
           w')) \<and>
   file_text (ensure_parent file_path fs) = file_text fs"
  by (simp add: process_and_save_def ensure_parent_def Let_def)

theorem process_and_save_all_or_nothing_witness:
  "file_text cached_fs ''data/daily.json'' = Some ''cached'' \<and>
   process_and_save Inr Inr (\<lambda>w. (Inr ''fresh'', Suc w)) ''data/daily.json'' (cached_fs, 0)
     = (Inr ''cached'', cached_fs, 0) \<and>
   file_text fresh_fs ''data/daily.json'' = None \<and>
   process_and_save Inr Inr (\<lambda>w. (Inl CollaboratorFailure, Suc w)) ''data/daily.json''
       (fresh_fs, 0)
     = (Inl CollaboratorFailure, fresh_fs\<lparr>dirs := {''data''}\<rparr>, Suc 0) \<and>
   process_and_save Inr Inr (\<lambda>w. (Inr ''fresh'', Suc w)) ''data/daily.json'' (fresh_fs, 0)
     = (Inr ''fresh'',
        \<lparr> dirs = {''data''}, file_text = [''data/daily.json'' \<mapsto> ''fresh''] \<rparr>, Suc 0)"
  using
    process_and_save_all_or_nothing[of cached_fs "''data/daily.json''" "''cached''"
      Inr Inr "\<lambda>w. (Inr ''fresh'', Suc w)" "0::nat"]
    process_and_save_all_or_nothing[of fresh_fs "''data/daily.json''" _
      Inr Inr "\<lambda>w. (Inl CollaboratorFailure, Suc w)" "0::nat" CollaboratorFailure "Suc 0"]
    process_and_save_all_or_nothing[of fresh_fs "''data/daily.json''" _
      Inr Inr "\<lambda>w. (Inr ''fresh'', Suc w)" "0::nat" _ "Suc 0" "''fresh''" "''fresh''"]
  by (simp add: cached_fs_def fresh_fs_def ensure_parent_def parent_of_def)

section \<open>Consolidation of technology weights\<close>

lemma monthly_zero_total:
  "sum_values (collect_weights grp) = 0 \<Longrightarrow> monthly_consolidate_technologies grp = Inr []"
  by (simp add: monthly_consolidate_technologies_def)

text \<open>
  Claim C2. The monthly consolidation returns the empty map when every map is empty or
  the weights sum to zero. The weekly consolidation has no such test: on a single empty
  map it raises \<open>IndexError\<close> at \<open>sorted_techs[0]\<close>, and on the map
  \<open>{"Python": 0}\<close> it raises \<open>ZeroDivisionError\<close>.
\<close>

theorem weekly_consolidate_zero_total_raises:
  "weekly_consolidate_technologies [[]] = Inl IndexError \<and>
   weekly_consolidate_technologies [[(''Python'', 0)]] = Inl ZeroDivisionError \<and>
   monthly_consolidate_technologies [[]] = Inr [] \<and>
   monthly_consolidate_technologies [[(''Python'', 0)]] = Inr []"
  by (simp add: weekly_consolidate_technologies_def monthly_consolidate_technologies_def
      collect_weights_def sum_values_def adjust_and_sort_def percentages_of_def
      rounded_of_def sorted_techs_def)

section \<open>Evaluating the example history\<close>

lemmas date_eval = week_start_of_def date_add_def weekday_def toordinal_def
  days_before_year_def days_before_month_def is_leap_def Let_def max_ordinal_def prev_day_def
  next_day_def days_in_month_def replace_day_def last_day_of_month_def eval_nat_numeral

lemma consolidate_single_python:
  "weekly_consolidate_technologies [[(''Python'', 100)]] = Inr [(''Python'', 100)]"
  "monthly_consolidate_technologies [[(''Python'', 100)]] = Inr [(''Python'', 100)]"
  by (simp_all add: weekly_consolidate_technologies_def monthly_consolidate_technologies_def
      collect_weights_def sum_values_def percentages_of_def adjust_and_sort_def rounded_of_def
      round2_def Let_def)


lemma example_weekly_eval:
  "weekly_summarize example_unify example_daily = Inr example_weekly"
  by (simp add: weekly_summarize_def weekly_groups_def weekly_bucket_def example_daily_def
      example_weekly_def example_unify_def consolidate_single_python date_eval)


section \<open>Conservation of the commit count\<close>













section \<open>Members of the groups\<close>

lemma group_append_members_all:
  "members_all Q s \<Longrightarrow> Q k v \<Longrightarrow> members_all Q (group_append k v s)"
  by (induction s) (auto simp: members_all_def)

lemma group_by_key_members_all:
  "group_by_key key xs s = Inr s' \<Longrightarrow> members_all Q s \<Longrightarrow>
   list_all (\<lambda>x. case key x of Inl e \<Rightarrow> True | Inr k \<Rightarrow> Q k x) xs \<Longrightarrow> members_all Q s'"
proof (induction xs arbitrary: s)
  case Nil
  then show ?case by simp
next
  case (Cons x xs)
  then obtain k where k: "key x = Inr k" and r: "group_by_key key xs (group_append k x s) = Inr s'"
    by (cases "key x") auto
  from Cons.prems(3) k have q: "Q k x" and rest: "list_all (\<lambda>x. case key x of Inl e \<Rightarrow> True | Inr k \<Rightarrow> Q k x) xs"
    by simp_all
  from Cons.IH[OF r group_append_members_all[OF Cons.prems(2) q] rest] show ?case .
qed

lemma members_all_entry:
  "members_all Q s \<Longrightarrow> (k, g) \<in> set s \<Longrightarrow> g \<noteq> [] \<and> (\<forall>x \<in> set g. Q k x)"
  by (auto simp: members_all_def list_all_iff)

lemma members_all_map_of:
  "members_all Q s \<Longrightarrow> map_of s k = Some g \<Longrightarrow> g \<noteq> [] \<and> (\<forall>x \<in> set g. Q k x)"
  using members_all_entry[of Q s k g] by (auto dest: map_of_SomeD)

lemma list_all2_map:
  "list_all2 R xs ys \<Longrightarrow> (\<And>x y. R x y \<Longrightarrow> g y = h x) \<Longrightarrow> map g ys = map h xs"
  by (induction rule: list_all2_induct) simp_all

lemma list_all2_right:
  "list_all2 R xs ys \<Longrightarrow> y \<in> set ys \<Longrightarrow> \<exists>x \<in> set xs. R x y"
  by (induction rule: list_all2_induct) auto

lemma weekly_bucket_dates:
  "weekly_bucket unify entry = Inr w \<Longrightarrow>
     w_start_date w = fst entry \<and> date_add (fst entry) 6 = Inr (w_end_date w)"
  by (auto simp: weekly_bucket_def split: prod.splits sum.splits)


section \<open>Weekly buckets\<close>

lemma week_member_facts:
  assumes "week_member s d"
  shows "valid_date s" and "weekday s = 0" and "toordinal s \<le> toordinal (d_date d)"
    and "toordinal (d_date d) \<le> toordinal s + 6"
proof -
  from assms have v: "valid_date (d_date d)" and w: "week_start_of (d_date d) = Inr s"
    by (simp_all add: week_member_def)
  from week_start_of_valid[OF v] w have f: "valid_date s" "weekday s = 0"
    "toordinal s = toordinal (d_date d) - weekday (d_date d)" by auto
  from f show "valid_date s" and "weekday s = 0" by simp_all
  from f(3) weekday_range[of "d_date d"] show "toordinal s \<le> toordinal (d_date d)"
    and "toordinal (d_date d) \<le> toordinal s + 6" by simp_all
qed

lemma week_end_facts:
  assumes "valid_date s" and "weekday s = 0" and "date_add s 6 = Inr e"
  shows "toordinal e = toordinal s + 6" and "weekday e = 6"
proof -
  from date_add_Inr[OF assms(1,3)] show t: "toordinal e = toordinal s + 6" by simp
  have "weekday e = ((toordinal s + 6) + 6) mod 7"
    unfolding weekday_def t ..
  also have "\<dots> = ((toordinal s + 6) mod 7 + 6) mod 7"
    by (simp add: mod_simps)
  also have "\<dots> = 6"
    using assms(2) unfolding weekday_def by simp
  finally show "weekday e = 6" .
qed

text \<open>
  Claim C7. For daily buckets with valid dates the weekly grouping returns, with one
  group per week start; every daily bucket is in a group, and every member of the group
  with key \<open>s\<close> has \<open>s\<close> as the Monday on or before its date: \<open>s\<close> is a Monday (weekday
  0) and the date is \<open>s\<close> or one of the six days after it. Every weekly bucket that
  \<open>summarize\<close> produces starts on the key of its group, a Monday, and ends six days
  later, a Sunday. A daily bucket dated on a Sunday and one dated on the day after it are
  never in the same group.
\<close>

theorem weekly_buckets_monday_to_sunday:
  assumes valid: "list_all (\<lambda>d. valid_date (d_date d)) data"
  shows "\<exists>summaries. weekly_groups data = Inr summaries \<and> distinct (map fst summaries) \<and>
     (\<forall>d \<in> set data. \<exists>s g. map_of summaries s = Some g \<and> d \<in> set g) \<and>
     (\<forall>s g d. map_of summaries s = Some g \<and> d \<in> set g \<longrightarrow>
        week_start_of (d_date d) = Inr s \<and> weekday s = 0 \<and>
        toordinal s \<le> toordinal (d_date d) \<and> toordinal (d_date d) \<le> toordinal s + 6) \<and>
     (\<forall>ws. weekly_summarize unify data = Inr ws \<longrightarrow>
        map w_start_date ws = map fst summaries \<and>
        (\<forall>w \<in> set ws. weekday (w_start_date w) = 0 \<and>
           date_add (w_start_date w) 6 = Inr (w_end_date w) \<and>
           toordinal (w_end_date w) = toordinal (w_start_date w) + 6 \<and>
           weekday (w_end_date w) = 6)) \<and>
     (\<forall>a b. a \<in> set data \<and> b \<in> set data \<and> weekday (d_date a) = 6 \<and>
        date_add (d_date a) 1 = Inr (d_date b) \<longrightarrow>
        \<not> (\<exists>s g. map_of summaries s = Some g \<and> a \<in> set g \<and> b \<in> set g))"
proof -
  let ?key = "\<lambda>commit. week_start_of (d_date commit)"
  have keys: "list_all (\<lambda>x. \<exists>k. ?key x = Inr k) data"
    using valid week_start_of_valid by (auto simp: list_all_iff)
  from group_by_key_returns[OF keys, of "[]"] obtain summaries
    where g: "group_by_key ?key data [] = Inr summaries" by blast
  then have wg: "weekly_groups data = Inr summaries" by (simp add: weekly_groups_def)
  have dist: "distinct (map fst summaries)"
    using group_by_key_invariant[OF g] by (simp add: keyed_by_def)
  have pre: "list_all (\<lambda>x. case ?key x of Inl e \<Rightarrow> True | Inr k \<Rightarrow> week_member k x) data"
    using valid by (auto simp: list_all_iff week_member_def split: sum.splits)
  have inv: "members_all week_member summaries"
    using group_by_key_members_all[OF g _ pre] by (simp add: members_all_def)
  have placed: "\<forall>d \<in> set data. \<exists>s g. map_of summaries s = Some g \<and> d \<in> set g"
    using group_by_key_members[OF g] by blast
  have member: "\<forall>s g d. map_of summaries s = Some g \<and> d \<in> set g \<longrightarrow>
        week_start_of (d_date d) = Inr s \<and> weekday s = 0 \<and>
        toordinal s \<le> toordinal (d_date d) \<and> toordinal (d_date d) \<le> toordinal s + 6"
  proof (intro allI impI)
    fix s g d
    assume "map_of summaries s = Some g \<and> d \<in> set g"
    with members_all_map_of[OF inv] have m: "week_member s d" by blast
    from week_member_facts[OF m] m
    show "week_start_of (d_date d) = Inr s \<and> weekday s = 0 \<and>
        toordinal s \<le> toordinal (d_date d) \<and> toordinal (d_date d) \<le> toordinal s + 6"
      by (simp add: week_member_def)
  qed
  have buckets: "\<forall>ws. weekly_summarize unify data = Inr ws \<longrightarrow>
        map w_start_date ws = map fst summaries \<and>
        (\<forall>w \<in> set ws. weekday (w_start_date w) = 0 \<and>
           date_add (w_start_date w) 6 = Inr (w_end_date w) \<and>
           toordinal (w_end_date w) = toordinal (w_start_date w) + 6 \<and>
           weekday (w_end_date w) = 6)"
  proof (intro allI impI)
    fix ws
    assume "weekly_summarize unify data = Inr ws"
    with wg have m: "map_err (weekly_bucket unify) summaries = Inr ws"
      by (simp add: weekly_summarize_def)
    note rel = map_err_Inr[OF m]
    have starts: "map w_start_date ws = map fst summaries"
      using rel by (rule list_all2_map) (simp add: weekly_bucket_dates)
    have each: "\<forall>w \<in> set ws. weekday (w_start_date w) = 0 \<and>
           date_add (w_start_date w) 6 = Inr (w_end_date w) \<and>
           toordinal (w_end_date w) = toordinal (w_start_date w) + 6 \<and>
           weekday (w_end_date w) = 6"
    proof
      fix w
      assume "w \<in> set ws"
      from list_all2_right[OF rel this] obtain entry where e: "entry \<in> set summaries"
        and b: "weekly_bucket unify entry = Inr w" by blast
      obtain s grp where entry: "entry = (s, grp)" by (cases entry)
      from weekly_bucket_dates[OF b] entry have sw: "w_start_date w = s"
        and ew: "date_add s 6 = Inr (w_end_date w)" by simp_all
      from members_all_entry[OF inv e[unfolded entry]] obtain d where "week_member s d"
        by (cases grp) auto
      from week_member_facts(1,2)[OF this] have vs: "valid_date s" and ms: "weekday s = 0" .
      from week_end_facts[OF vs ms ew] ms ew
      show "weekday (w_start_date w) = 0 \<and>
           date_add (w_start_date w) 6 = Inr (w_end_date w) \<and>
           toordinal (w_end_date w) = toordinal (w_start_date w) + 6 \<and>
           weekday (w_end_date w) = 6"
        unfolding sw by simp
    qed
    from starts each show "map w_start_date ws = map fst summaries \<and>
        (\<forall>w \<in> set ws. weekday (w_start_date w) = 0 \<and>
           date_add (w_start_date w) 6 = Inr (w_end_date w) \<and>
           toordinal (w_end_date w) = toordinal (w_start_date w) + 6 \<and>
           weekday (w_end_date w) = 6)" by (rule conjI)
  qed
  have apart: "\<forall>a b. a \<in> set data \<and> b \<in> set data \<and> weekday (d_date a) = 6 \<and>
        date_add (d_date a) 1 = Inr (d_date b) \<longrightarrow>
        \<not> (\<exists>s g. map_of summaries s = Some g \<and> a \<in> set g \<and> b \<in> set g)"
  proof (intro allI impI notI)
    fix a b
    assume h: "a \<in> set data \<and> b \<in> set data \<and> weekday (d_date a) = 6 \<and>
        date_add (d_date a) 1 = Inr (d_date b)"
    assume "\<exists>s g. map_of summaries s = Some g \<and> a \<in> set g \<and> b \<in> set g"
    then obtain s g where sg: "map_of summaries s = Some g" "a \<in> set g" "b \<in> set g" by blast
    from member sg have "week_start_of (d_date a) = Inr s" "week_start_of (d_date b) = Inr s"
      by blast+
    then have same: "week_start_of (d_date a) = week_start_of (d_date b)" by simp
    from h valid have va: "valid_date (d_date a)" by (simp add: list_all_iff)
    from sunday_monday_different_weeks[OF va] h same show False by blast
  qed
  from wg dist placed member buckets apart show ?thesis by (intro exI conjI)
qed

theorem weekly_buckets_monday_to_sunday_witness:
  "valid_date \<lparr> year = 2024, month = 3, day = 3 \<rparr> \<and>
   valid_date \<lparr> year = 2024, month = 3, day = 4 \<rparr> \<and>
   valid_date \<lparr> year = 2024, month = 4, day = 1 \<rparr> \<and>
   weekday \<lparr> year = 2024, month = 3, day = 3 \<rparr> = 6 \<and>
   weekly_summarize example_unify example_daily = Inr example_weekly \<and>
   map (\<lambda>w. weekday (w_start_date w)) example_weekly = [0, 0, 0] \<and>
   map (\<lambda>w. weekday (w_end_date w)) example_weekly = [6, 6, 6]"
proof -
  have v: "valid_date \<lparr> year = 2024, month = 3, day = 3 \<rparr>"
    "valid_date \<lparr> year = 2024, month = 3, day = 4 \<rparr>"
    "valid_date \<lparr> year = 2024, month = 4, day = 1 \<rparr>"
    by (simp_all add: valid_date_def days_in_month_def)
  then have valid: "list_all (\<lambda>d. valid_date (d_date d)) example_daily"
    by (simp add: example_daily_def)
  have sunday: "weekday \<lparr> year = 2024, month = 3, day = 3 \<rparr> = 6"
    by (simp add: date_eval)
  from weekly_buckets_monday_to_sunday[OF valid, of example_unify] example_weekly_eval
  have "\<forall>w \<in> set example_weekly. weekday (w_start_date w) = 0 \<and> weekday (w_end_date w) = 6"
    by blast
  then have "map (\<lambda>w. weekday (w_start_date w)) example_weekly = [0, 0, 0]"
    and "map (\<lambda>w. weekday (w_end_date w)) example_weekly = [6, 6, 6]"
    by (simp_all add: example_weekly_def)
  with v sunday example_weekly_eval show ?thesis by simp
qed

section \<open>Monthly buckets\<close>








section \<open>The residual of the rounding\<close>

lemma sort_key_nonempty: "xs \<noteq> [] \<Longrightarrow> sort_key f xs \<noteq> []"
  by (metis length_sort length_0_conv)

lemma hd_insort_key:
  "hd (insort_key f x ys) = (if ys = [] \<or> f x \<le> f (hd ys) then x else hd ys)"
  by (cases ys) simp_all

lemma hd_sort_key_first_min:
  fixes f :: "'a \<Rightarrow> 'b::linorder"
  shows "xs \<noteq> [] \<Longrightarrow>
     \<exists>i < length xs. hd (sort_key f xs) = xs ! i \<and>
        (\<forall>j < length xs. f (xs ! i) \<le> f (xs ! j)) \<and>
        (\<forall>j < i. f (xs ! i) < f (xs ! j))"
proof (induction xs)
  case Nil
  then show ?case by simp
next
  case (Cons x xs)
  show ?case
  proof (cases "xs = []")
    case True
    then show ?thesis by simp
  next
    case False
    from Cons.IH[OF False] obtain i where i: "i < length xs"
      and h: "hd (sort_key f xs) = xs ! i"
      and least: "\<forall>j < length xs. f (xs ! i) \<le> f (xs ! j)"
      and first: "\<forall>j < i. f (xs ! i) < f (xs ! j)" by blast
    have ne: "sort_key f xs \<noteq> []" using False by (rule sort_key_nonempty)
    show ?thesis
    proof (cases "f x \<le> f (xs ! i)")
      case True
      have hd0: "hd (sort_key f (x # xs)) = (x # xs) ! 0"
        using True ne h by (simp add: hd_insort_key)
      have l0: "\<forall>j < length (x # xs). f ((x # xs) ! 0) \<le> f ((x # xs) ! j)"
      proof (intro allI impI)
        fix j assume j: "j < length (x # xs)"
        show "f ((x # xs) ! 0) \<le> f ((x # xs) ! j)"
        proof (cases j)
          case 0
          then show ?thesis by simp
        next
          case (Suc j')
          with j least have "f (xs ! i) \<le> f (xs ! j')" by simp
          with True Suc show ?thesis by simp
        qed
      qed
      show ?thesis
        by (rule exI[of _ 0]) (use hd0 l0 in simp)
    next
      case False
      then have lt: "f (xs ! i) < f x" by simp
      have hd1: "hd (sort_key f (x # xs)) = (x # xs) ! Suc i"
        using False ne h by (simp add: hd_insort_key)
      have l1: "\<forall>j < length (x # xs). f ((x # xs) ! Suc i) \<le> f ((x # xs) ! j)"
      proof (intro allI impI)
        fix j assume j: "j < length (x # xs)"
        show "f ((x # xs) ! Suc i) \<le> f ((x # xs) ! j)"
        proof (cases j)
          case 0
          with lt show ?thesis by simp
        next
          case (Suc j')
          with j least show ?thesis by simp
        qed
      qed
      have f1: "\<forall>j < Suc i. f ((x # xs) ! Suc i) < f ((x # xs) ! j)"
      proof (intro allI impI)
        fix j assume j: "j < Suc i"
        show "f ((x # xs) ! Suc i) < f ((x # xs) ! j)"
        proof (cases j)
          case 0
          with lt show ?thesis by simp
        next
          case (Suc j')
          with j first show ?thesis by simp
        qed
      qed
      show ?thesis
        by (rule exI[of _ "Suc i"]) (use i hd1 l1 f1 in simp)
    qed
  qed
qed

lemma add_weight_keys:
  "map fst (add_weight t w m) = (if t \<in> set (map fst m) then map fst m else map fst m @ [t])"
  by (induction m) (fastforce simp: image_iff)+

lemma add_weight_distinct: "distinct (map fst m) \<Longrightarrow> distinct (map fst (add_weight t w m))"
  by (simp add: add_weight_keys)

lemma foldl_add_weight_distinct:
  "distinct (map fst acc) \<Longrightarrow>
     distinct (map fst (foldl (\<lambda>acc' (tech, weight). add_weight tech weight acc') acc entry))"
  by (induction entry arbitrary: acc) (auto simp: add_weight_distinct)

lemma collect_weights_distinct: "distinct (map fst (collect_weights entries))"
proof -
  have "distinct (map fst acc) \<Longrightarrow>
     distinct (map fst (foldl (\<lambda>acc entry.
        foldl (\<lambda>acc' (tech, weight). add_weight tech weight acc') acc entry) acc entries))"
    for acc
    by (induction entries arbitrary: acc) (simp_all add: foldl_add_weight_distinct)
  from this[of "[]"] show ?thesis by (simp add: collect_weights_def)
qed

lemma percentages_of_keys: "map fst (percentages_of m t) = map fst m"
  by (induction m) (auto simp: percentages_of_def)

lemma rounded_of_keys: "map fst (rounded_of m) = map fst m"
  by (induction m) (auto simp: rounded_of_def)

lemma rounded_of_nth:
  "i < length m \<Longrightarrow> rounded_of m ! i = (fst (m ! i), round2 (snd (m ! i)))"
  by (simp add: rounded_of_def case_prod_beta)

lemma map_of_add_to:
  "map_of (add_to t diff m) u
     = (if u = t then map_option (\<lambda>v. v + diff) (map_of m t) else map_of m u)"
  by (induction m) (auto simp: add_to_def)

lemma add_to_keys: "map fst (add_to t diff m) = map fst m"
  by (induction m) (auto simp: add_to_def)

lemma distinct_keys_sort_key:
  fixes m :: "('k::linorder \<times> 'v) list"
  shows "distinct (map fst m) \<Longrightarrow> distinct (map fst (sort_key fst m))"
  by (induction m) (auto simp: distinct_insort_key)

lemma map_of_sort_key_fst:
  fixes m :: "('k::linorder \<times> 'v) list"
  assumes "distinct (map fst m)"
  shows "map_of (sort_key fst m) = map_of m"
proof -
  have "distinct (map fst (sort_key fst m))"
    using assms by (rule distinct_keys_sort_key)
  moreover have "set (sort_key fst m) = set m" by simp
  ultimately show ?thesis
    using assms by (simp add: map_of_inject_set)
qed


lemma sum_values_zero_Nil: "sum_values [] = 0"
  by (simp add: sum_values_def)

lemma residual_assignment:
  fixes grp :: "weights list"
  defines "totals \<equiv> collect_weights grp"
  defines "percentages \<equiv> percentages_of totals (sum_values totals)"
  defines "rounded \<equiv> rounded_of percentages"
  defines "diff \<equiv> 100 - sum_values rounded"
  assumes total: "sum_values totals \<noteq> 0" and drift: "sum_values rounded \<noteq> 100"
  shows "\<exists>i < length percentages.
     (\<forall>j < length percentages.
        decimal_diff (snd (percentages ! j)) \<le> decimal_diff (snd (percentages ! i))) \<and>
     (\<forall>j < i. decimal_diff (snd (percentages ! j)) < decimal_diff (snd (percentages ! i))) \<and>
     (\<exists>result. weekly_consolidate_technologies grp = Inr result \<and>
        monthly_consolidate_technologies grp = Inr result \<and>
        result = sort_key fst (add_to (fst (percentages ! i)) diff rounded) \<and>
        map_of result (fst (percentages ! i)) = Some (round2 (snd (percentages ! i)) + diff) \<and>
        (\<forall>u. u \<noteq> fst (percentages ! i) \<longrightarrow> map_of result u = map_of rounded u))"
proof -
  let ?f = "\<lambda>(tech, p). - decimal_diff p"
  have tne: "totals \<noteq> []"
    using total sum_values_zero_Nil by auto
  then have pne: "percentages \<noteq> []"
    by (simp add: percentages_def percentages_of_def)
  from hd_sort_key_first_min[OF pne, of ?f] obtain i where i: "i < length percentages"
    and h: "hd (sort_key ?f percentages) = percentages ! i"
    and least: "\<forall>j < length percentages. ?f (percentages ! i) \<le> ?f (percentages ! j)"
    and first: "\<forall>j < i. ?f (percentages ! i) < ?f (percentages ! j)" by blast
  let ?tech = "fst (percentages ! i)"
  let ?result = "sort_key fst (add_to ?tech diff rounded)"
  have largest: "\<forall>j < length percentages.
        decimal_diff (snd (percentages ! j)) \<le> decimal_diff (snd (percentages ! i))"
    using least by (simp add: case_prod_beta)
  have earliest: "\<forall>j < i.
        decimal_diff (snd (percentages ! j)) < decimal_diff (snd (percentages ! i))"
    using first by (simp add: case_prod_beta)
  have "sort_key ?f percentages \<noteq> []"
    using pne by (rule sort_key_nonempty)
  then obtain rest where "sort_key ?f percentages = (percentages ! i) # rest"
    using h by (cases "sort_key ?f percentages") simp_all
  then have st: "sorted_techs percentages = ?tech # map fst rest"
    by (simp add: sorted_techs_def)
  have adj: "adjust_and_sort percentages = Inr ?result"
    using drift st by (simp add: adjust_and_sort_def Let_def rounded_def diff_def)
  have weekly: "weekly_consolidate_technologies grp = Inr ?result"
    using total adj
    by (simp add: weekly_consolidate_technologies_def Let_def totals_def percentages_def)
  have monthly: "monthly_consolidate_technologies grp = Inr ?result"
    using total adj
    by (simp add: monthly_consolidate_technologies_def Let_def totals_def percentages_def)
  have dk: "distinct (map fst rounded)"
    by (simp add: rounded_def percentages_def totals_def rounded_of_keys percentages_of_keys
        collect_weights_distinct)
  have "distinct (map fst (add_to ?tech diff rounded))"
    using dk by (simp add: add_to_keys)
  then have mo: "map_of ?result = map_of (add_to ?tech diff rounded)"
    by (rule map_of_sort_key_fst)
  have "(?tech, round2 (snd (percentages ! i))) \<in> set rounded"
    using i rounded_of_nth[OF i] unfolding rounded_def
    by (metis length_map nth_mem rounded_of_def)
  with dk have at: "map_of rounded ?tech = Some (round2 (snd (percentages ! i)))"
    by (rule_tac map_of_is_SomeI)
  have changed: "map_of ?result ?tech = Some (round2 (snd (percentages ! i)) + diff)"
    unfolding mo map_of_add_to using at by simp
  have others: "\<forall>u. u \<noteq> ?tech \<longrightarrow> map_of ?result u = map_of rounded u"
    unfolding mo map_of_add_to by simp
  show ?thesis
    by (intro exI[of _ i] exI[of _ ?result] conjI i largest earliest weekly monthly refl
        changed others)
qed





text \<open>
  In the exact arithmetic of this model the consolidated weights of a group with a
  non-zero total sum to exactly 100.
\<close>

lemma sum_values_insort_key:
  "sum_values (insort_key f x m) = snd x + sum_values m"
  by (induction m) (simp_all add: sum_values_def)

lemma sum_values_sort_key: "sum_values (sort_key f m) = sum_values m"
proof (induction m)
  case Nil
  show ?case by simp
next
  case (Cons x m)
  have "sum_values (sort_key f (x # m)) = snd x + sum_values (sort_key f m)"
    by (simp add: sum_values_insort_key)
  also have "\<dots> = sum_values (x # m)"
    unfolding Cons.IH by (simp add: sum_values_def)
  finally show ?case .
qed

lemma sum_values_add_to:
  "distinct (map fst m) \<Longrightarrow> t \<in> set (map fst m) \<Longrightarrow>
     sum_values (add_to t diff m) = sum_values m + diff"
proof (induction m)
  case Nil
  then show ?case by simp
next
  case (Cons e m)
  obtain k v where e: "e = (k, v)" by (cases e)
  show ?case
  proof (cases "k = t")
    case True
    with Cons.prems e have "t \<notin> set (map fst m)" by simp
    then have "add_to t diff m = m"
      by (induction m) (auto simp: add_to_def)
    with True e show ?thesis
      by (simp add: add_to_def sum_values_def)
  next
    case False
    with Cons e have "sum_values (add_to t diff m) = sum_values m + diff" by simp
    with False e show ?thesis
      by (simp add: add_to_def sum_values_def)
  qed
qed

lemma consolidate_sum_exact:
  assumes "sum_values (collect_weights grp) \<noteq> 0"
  shows "\<exists>result. weekly_consolidate_technologies grp = Inr result \<and>
           monthly_consolidate_technologies grp = Inr result \<and> sum_values result = 100"
proof -
  let ?p = "percentages_of (collect_weights grp) (sum_values (collect_weights grp))"
  let ?r = "rounded_of ?p"
  show ?thesis
  proof (cases "sum_values ?r = 100")
    case True
    then have "adjust_and_sort ?p = Inr (sort_key fst ?r)"
      by (simp add: adjust_and_sort_def Let_def)
    with assms True show ?thesis
      by (simp add: weekly_consolidate_technologies_def monthly_consolidate_technologies_def
          Let_def sum_values_sort_key)
  next
    case False
    from residual_assignment[OF assms False] obtain i result
      where i: "i < length ?p"
        and w: "weekly_consolidate_technologies grp = Inr result"
        and m: "monthly_consolidate_technologies grp = Inr result"
        and r: "result = sort_key fst (add_to (fst (?p ! i)) (100 - sum_values ?r) ?r)"
      by blast
    have dk: "distinct (map fst ?r)"
      by (simp add: rounded_of_keys percentages_of_keys collect_weights_distinct)
    have "fst (?p ! i) \<in> set (map fst ?r)"
      using i by (simp add: rounded_of_keys)
    from sum_values_add_to[OF dk this] have "sum_values result = 100"
      unfolding r sum_values_sort_key by simp
    with w m show ?thesis by blast
  qed
qed

end
